theory Spec2Isabelle
  imports Main
begin

section \<open>Python values and exceptions\<close>

text \<open>
  The values that the address module handles: what \<^verbatim>\<open>json.loads\<close> and
  \<^verbatim>\<open>response.json()\<close> produce (\<^verbatim>\<open>None\<close>, booleans, integers, floats, strings, lists
  and dictionaries with string keys) and the tuple that \<^verbatim>\<open>__get_coordinates\<close> builds.
  A Python \<^verbatim>\<open>str\<close> is a \<open>string\<close> whose characters are the code points below 256.
  A float is carried by the text that the JSON codec reads or writes for it
  (\<^verbatim>\<open>40.7\<close>, \<^verbatim>\<open>-74.0\<close>, \<^verbatim>\<open>1e+16\<close>, \<^verbatim>\<open>NaN\<close>); the module never computes with floats.
  Two different texts may denote one float, so equal values of the model denote the same
  Python value, which is the direction the theorems below use; the converse does not hold.
  (Python's \<^verbatim>\<open>==\<close> agrees with sameness on every float but NaN, which is unequal to
  itself.)
  A dictionary is an association list in insertion order.

  Integers are unbounded and nesting is unbounded: the interpreter's limits on the number of
  digits of an integer that is converted to or from text, and on the depth of recursion,
  are not part of the model.
\<close>

datatype pyval =
    PNone
  | PBool bool
  | PInt int
  | PFloat string
  | PStr string
  | PList "pyval list"
  | PTuple "pyval list"
  | PDict "(string \<times> pyval) list"

text \<open>
  The exceptions that can leave the module. \<open>ValueError\<close> carries its message, which the
  source builds; the others are raised by the runtime and the libraries.
  \<open>RequestException\<close> stands for whatever \<^verbatim>\<open>requests.get\<close> itself raises.
  \<open>Unmodelled\<close> and \<open>OutOfFuel\<close> are not Python exceptions: the first marks a text whose
  decoding needs a code point above 255, the second a decoder run that was given too little
  fuel (lemma \<open>loads_fuel\<close> shows that \<open>loads\<close> never is).
\<close>

datatype error =
    ValueError string
  | TypeError
  | IndexError
  | KeyError string
  | AttributeError string
  | JSONDecodeError
  | RequestException
  | Unmodelled
  | OutOfFuel

section \<open>The JSON codec\<close>

text \<open>
  \<^verbatim>\<open>json.dumps\<close> and \<^verbatim>\<open>json.loads\<close> with their default arguments, as the module calls
  them: item separator \<^verbatim>\<open>", "\<close>, key separator \<^verbatim>\<open>": "\<close>, ASCII-only output, strict
  string decoding.
\<close>

subsection \<open>Encoding\<close>

abbreviation dquote :: char where "dquote \<equiv> CHR 0x22"
abbreviation backslash :: char where "backslash \<equiv> CHR 0x5C"

definition digit_char :: "nat \<Rightarrow> char" where
  "digit_char d = ''0123456789'' ! d"

fun str_nat :: "nat \<Rightarrow> string" where
  "str_nat n = (if n < 10 then [digit_char n] else str_nat (n div 10) @ [digit_char (n mod 10)])"

declare str_nat.simps [simp del]

text \<open>\<^verbatim>\<open>str(i)\<close> for an integer: decimal digits, with a leading minus sign when negative.\<close>

definition str_int :: "int \<Rightarrow> string" where
  "str_int i = (if i < 0 then CHR ''-'' # str_nat (nat (- i)) else str_nat (nat i))"

definition hex_char :: "nat \<Rightarrow> char" where
  "hex_char d = ''0123456789abcdef'' ! d"

text \<open>
  One character of a string, as \<^verbatim>\<open>py_encode_basestring_ascii\<close> writes it: the short escapes
  of \<^verbatim>\<open>ESCAPE_DCT\<close>, the printable ASCII characters as they are, and every other character
  as \<^verbatim>\<open>\u00xx\<close> with lower-case hexadecimal digits.
\<close>

definition escape_char :: "char \<Rightarrow> string" where
  "escape_char c =
    (if c = backslash then [backslash, backslash]
     else if c = dquote then [backslash, dquote]
     else if c = CHR 0x08 then [backslash, CHR ''b'']
     else if c = CHR 0x0C then [backslash, CHR ''f'']
     else if c = CHR 0x0A then [backslash, CHR ''n'']
     else if c = CHR 0x0D then [backslash, CHR ''r'']
     else if c = CHR 0x09 then [backslash, CHR ''t'']
     else if (32::nat) \<le> of_char c \<and> of_char c \<le> (126::nat) then [c]
     else [backslash, CHR ''u'', CHR ''0'', CHR ''0'',
           hex_char (of_char c div 16), hex_char (of_char c mod 16)])"

definition encode_basestring_ascii :: "string \<Rightarrow> string" where
  "encode_basestring_ascii s = dquote # concat (map escape_char s) @ [dquote]"

fun join :: "string \<Rightarrow> string list \<Rightarrow> string" where
  "join sep [] = []"
| "join sep [x] = x"
| "join sep (x # y # ys) = x @ sep @ join sep (y # ys)"

text \<open>
  A list and a tuple are both written as a JSON array. A float is written as its text.
\<close>

fun dumps :: "pyval \<Rightarrow> string" where
  "dumps PNone = ''null''"
| "dumps (PBool b) = (if b then ''true'' else ''false'')"
| "dumps (PInt i) = str_int i"
| "dumps (PFloat r) = r"
| "dumps (PStr s) = encode_basestring_ascii s"
| "dumps (PList vs) = ''['' @ join '', '' (map dumps vs) @ '']''"
| "dumps (PTuple vs) = ''['' @ join '', '' (map dumps vs) @ '']''"
| "dumps (PDict kvs) =
     ''{'' @ join '', '' (map (\<lambda>kv. encode_basestring_ascii (fst kv) @ '': '' @ dumps (snd kv)) kvs)
       @ ''}''"

subsection \<open>Decoding\<close>

definition is_ws :: "char \<Rightarrow> bool" where
  "is_ws c = (c = CHR '' '' \<or> c = CHR 0x09 \<or> c = CHR 0x0A \<or> c = CHR 0x0D)"

definition skip_ws :: "string \<Rightarrow> string" where
  "skip_ws s = dropWhile is_ws s"

definition is_digit :: "char \<Rightarrow> bool" where
  "is_digit c = (c \<in> set ''0123456789'')"

definition digit_val :: "char \<Rightarrow> nat" where
  "digit_val c = of_char c - 48"

definition hex_val :: "char \<Rightarrow> nat option" where
  "hex_val c =
    (if is_digit c then Some (of_char c - 48)
     else if c \<in> set ''abcdef'' then Some (of_char c - 87)
     else if c \<in> set ''ABCDEF'' then Some (of_char c - 55)
     else None)"

text \<open>The four hexadecimal digits after \<^verbatim>\<open>\u\<close>, as a code point.\<close>

definition decode_uXXXX :: "string \<Rightarrow> nat option" where
  "decode_uXXXX s =
    (case map hex_val (take 4 s) of
       [Some a, Some b, Some c, Some d] \<Rightarrow> Some (((a * 16 + b) * 16 + c) * 16 + d)
     | _ \<Rightarrow> None)"

text \<open>The table \<^verbatim>\<open>BACKSLASH\<close> of the decoder.\<close>

definition BACKSLASH :: "char \<Rightarrow> char option" where
  "BACKSLASH e =
    (if e = dquote then Some dquote
     else if e = backslash then Some backslash
     else if e = CHR ''/'' then Some CHR ''/''
     else if e = CHR ''b'' then Some (CHR 0x08)
     else if e = CHR ''f'' then Some (CHR 0x0C)
     else if e = CHR ''n'' then Some (CHR 0x0A)
     else if e = CHR ''r'' then Some (CHR 0x0D)
     else if e = CHR ''t'' then Some (CHR 0x09)
     else None)"

text \<open>
  \<^verbatim>\<open>scanstring\<close> in strict mode, from the character after the opening quote: the decoded
  string and the text after the closing quote. A raw control character, an unknown escape
  and a missing closing quote are errors.
\<close>

fun scanstring :: "string \<Rightarrow> error + string \<times> string" where
  "scanstring [] = Inl JSONDecodeError"
| "scanstring (c # cs) =
    (if c = dquote then Inr ([], cs)
     else if c = backslash then
       (case cs of
          [] \<Rightarrow> Inl JSONDecodeError
        | e # es \<Rightarrow>
            if e = CHR ''u'' then
              (case decode_uXXXX es of
                 None \<Rightarrow> Inl JSONDecodeError
               | Some uni \<Rightarrow>
                   if uni < 256 then
                     (case scanstring (drop 4 es) of
                        Inl err \<Rightarrow> Inl err
                      | Inr (str, r) \<Rightarrow> Inr (char_of uni # str, r))
                   else Inl Unmodelled)
            else
              (case BACKSLASH e of
                 None \<Rightarrow> Inl JSONDecodeError
               | Some ch \<Rightarrow>
                   (case scanstring es of
                      Inl err \<Rightarrow> Inl err
                    | Inr (str, r) \<Rightarrow> Inr (ch # str, r))))
     else if of_char c < (32::nat) then Inl JSONDecodeError
     else
       (case scanstring cs of
          Inl err \<Rightarrow> Inl err
        | Inr (str, r) \<Rightarrow> Inr (c # str, r)))"

text \<open>
  \<^verbatim>\<open>NUMBER_RE\<close>, group by group: the integer part \<^verbatim>\<open>-?(0|[1-9][0-9]*)\<close>, the optional
  fraction \<^verbatim>\<open>\.[0-9]+\<close> and the optional exponent \<^verbatim>\<open>[eE][-+]?[0-9]+\<close>. Each returns the
  text of its group (empty when the optional group does not match) and what follows.
\<close>

definition match_integer :: "string \<Rightarrow> (string \<times> string) option" where
  "match_integer s =
    (let sign = takeWhile (\<lambda>c. c = CHR ''-'') (take 1 s); r = drop (length sign) s
     in case r of
          [] \<Rightarrow> None
        | c # cs \<Rightarrow>
            if c = CHR ''0'' then Some (sign @ ''0'', cs)
            else if is_digit c then Some (sign @ c # takeWhile is_digit cs, dropWhile is_digit cs)
            else None)"

definition match_frac :: "string \<Rightarrow> string \<times> string" where
  "match_frac s =
    (case s of
       c # d # cs \<Rightarrow>
         if c = CHR ''.'' \<and> is_digit d
         then (c # d # takeWhile is_digit cs, dropWhile is_digit cs) else ([], s)
     | _ \<Rightarrow> ([], s))"

definition match_exp :: "string \<Rightarrow> string \<times> string" where
  "match_exp s =
    (case s of
       [] \<Rightarrow> ([], s)
     | e # cs \<Rightarrow>
         if e = CHR ''e'' \<or> e = CHR ''E'' then
           (let sign = takeWhile (\<lambda>c. c = CHR ''+'' \<or> c = CHR ''-'') (take 1 cs);
                r = drop (length sign) cs
            in case r of
                 [] \<Rightarrow> ([], s)
               | d # ds \<Rightarrow>
                   if is_digit d
                   then (e # sign @ d # takeWhile is_digit ds, dropWhile is_digit ds)
                   else ([], s))
         else ([], s))"

definition match_number :: "string \<Rightarrow> (string \<times> string \<times> string \<times> string) option" where
  "match_number s =
    (case match_integer s of
       None \<Rightarrow> None
     | Some (integer, r) \<Rightarrow>
         (case match_frac r of
            (frac, r') \<Rightarrow> (case match_exp r' of (exp, r'') \<Rightarrow> Some (integer, frac, exp, r''))))"

text \<open>\<^verbatim>\<open>int(text)\<close> on the text of an integer group.\<close>

definition nat_of_digits :: "string \<Rightarrow> nat" where
  "nat_of_digits ds = foldl (\<lambda>a c. 10 * a + digit_val c) 0 ds"

definition int_of_text :: "string \<Rightarrow> int" where
  "int_of_text s =
    (case s of
       [] \<Rightarrow> 0
     | c # cs \<Rightarrow> if c = CHR ''-'' then - int (nat_of_digits cs) else int (nat_of_digits (c # cs)))"

text \<open>
  \<^verbatim>\<open>dict(pairs)\<close>: a later pair with a key already present replaces the value and keeps
  the key's place.
\<close>

fun dict_set :: "(string \<times> pyval) list \<Rightarrow> string \<Rightarrow> pyval \<Rightarrow> (string \<times> pyval) list" where
  "dict_set [] k v = [(k, v)]"
| "dict_set (p # d) k v = (if fst p = k then (k, v) # d else p # dict_set d k v)"

definition dict_of_pairs :: "(string \<times> pyval) list \<Rightarrow> (string \<times> pyval) list" where
  "dict_of_pairs ps = foldl (\<lambda>d kv. dict_set d (fst kv) (snd kv)) [] ps"

text \<open>
  The scanner. \<open>scan_once\<close> reads one value at the head of the text; \<open>scan_items\<close> reads
  the elements of a non-empty array and \<open>scan_members\<close> the members of a non-empty object,
  each up to and including the closing bracket. The first argument is fuel: every call
  into a nested value or to the next element uses one unit.
\<close>

fun scan_once :: "nat \<Rightarrow> string \<Rightarrow> error + pyval \<times> string"
  and scan_items :: "nat \<Rightarrow> string \<Rightarrow> error + pyval list \<times> string"
  and scan_members :: "nat \<Rightarrow> string \<Rightarrow> error + (string \<times> pyval) list \<times> string"
where
  "scan_once 0 s = Inl OutOfFuel"
| "scan_once (Suc n) [] = Inl JSONDecodeError"
| "scan_once (Suc n) (c # cs) =
    (if c = dquote then
       (case scanstring cs of
          Inl e \<Rightarrow> Inl e
        | Inr (str, r) \<Rightarrow> Inr (PStr str, r))
     else if c = CHR ''{'' then
       (case skip_ws cs of
          [] \<Rightarrow> Inl JSONDecodeError
        | d # ds \<Rightarrow>
            if d = CHR ''}'' then Inr (PDict [], ds)
            else
              (case scan_members n (d # ds) of
                 Inl e \<Rightarrow> Inl e
               | Inr (kvs, r) \<Rightarrow> Inr (PDict (dict_of_pairs kvs), r)))
     else if c = CHR ''['' then
       (case skip_ws cs of
          [] \<Rightarrow> Inl JSONDecodeError
        | d # ds \<Rightarrow>
            if d = CHR '']'' then Inr (PList [], ds)
            else
              (case scan_items n (d # ds) of
                 Inl e \<Rightarrow> Inl e
               | Inr (vs, r) \<Rightarrow> Inr (PList vs, r)))
     else if take 4 (c # cs) = ''null'' then Inr (PNone, drop 4 (c # cs))
     else if take 4 (c # cs) = ''true'' then Inr (PBool True, drop 4 (c # cs))
     else if take 5 (c # cs) = ''false'' then Inr (PBool False, drop 5 (c # cs))
     else
       (case match_number (c # cs) of
          Some (integer, frac, exp, r) \<Rightarrow>
            if frac \<noteq> [] \<or> exp \<noteq> [] then Inr (PFloat (integer @ frac @ exp), r)
            else Inr (PInt (int_of_text integer), r)
        | None \<Rightarrow>
            if take 3 (c # cs) = ''NaN'' then Inr (PFloat ''NaN'', drop 3 (c # cs))
            else if take 8 (c # cs) = ''Infinity'' then Inr (PFloat ''Infinity'', drop 8 (c # cs))
            else if take 9 (c # cs) = ''-Infinity'' then Inr (PFloat ''-Infinity'', drop 9 (c # cs))
            else Inl JSONDecodeError))"
| "scan_items 0 s = Inl OutOfFuel"
| "scan_items (Suc n) s =
    (case scan_once n s of
       Inl e \<Rightarrow> Inl e
     | Inr (v, r) \<Rightarrow>
         (case skip_ws r of
            [] \<Rightarrow> Inl JSONDecodeError
          | c # r' \<Rightarrow>
              if c = CHR '']'' then Inr ([v], r')
              else if c = CHR '','' then
                (case scan_items n (skip_ws r') of
                   Inl e \<Rightarrow> Inl e
                 | Inr (vs, r'') \<Rightarrow> Inr (v # vs, r''))
              else Inl JSONDecodeError))"
| "scan_members 0 s = Inl OutOfFuel"
| "scan_members (Suc n) [] = Inl JSONDecodeError"
| "scan_members (Suc n) (q # cs) =
    (if q \<noteq> dquote then Inl JSONDecodeError
     else
       (case scanstring cs of
          Inl e \<Rightarrow> Inl e
        | Inr (key, r) \<Rightarrow>
            (case skip_ws r of
               [] \<Rightarrow> Inl JSONDecodeError
             | c # r1 \<Rightarrow>
                 if c \<noteq> CHR '':'' then Inl JSONDecodeError
                 else
                   (case scan_once n (skip_ws r1) of
                      Inl e \<Rightarrow> Inl e
                    | Inr (v, r2) \<Rightarrow>
                        (case skip_ws r2 of
                           [] \<Rightarrow> Inl JSONDecodeError
                         | c' # r3 \<Rightarrow>
                             if c' = CHR ''}'' then Inr ([(key, v)], r3)
                             else if c' = CHR '','' then
                               (case scan_members n (skip_ws r3) of
                                  Inl e \<Rightarrow> Inl e
                                | Inr (kvs, r4) \<Rightarrow> Inr ((key, v) # kvs, r4))
                             else Inl JSONDecodeError)))))"

text \<open>
  \<^verbatim>\<open>json.loads\<close> on a \<^verbatim>\<open>str\<close>: leading white space, one value, trailing white space,
  and nothing else. Twice the length of the text, and two more, is fuel enough for every
  text.
\<close>

definition loads :: "string \<Rightarrow> error + pyval" where
  "loads s =
    (case scan_once (2 * length s + 2) (skip_ws s) of
       Inl e \<Rightarrow> Inl e
     | Inr (v, r) \<Rightarrow> if skip_ws r = [] then Inr v else Inl JSONDecodeError)"

section \<open>The state registry\<close>

text \<open>
  \<^verbatim>\<open>class State(Enum): NY = "New York"\<close>. \<^verbatim>\<open>State.__members__\<close> maps each member's name to
  the member; \<^verbatim>\<open>isValid\<close> is \<^verbatim>\<open>state in State.__members__\<close>.
\<close>

datatype State = NY

definition State_members :: "(string \<times> State) list" where
  "State_members = [(''NY'', NY)]"

fun State_value :: "State \<Rightarrow> string" where
  "State_value NY = ''New York''"

fun State_name :: "State \<Rightarrow> string" where
  "State_name NY = ''NY''"

definition State_str :: "State \<Rightarrow> string" where
  "State_str s = State_name s"

definition isValid :: "string \<Rightarrow> bool" where
  "isValid state = (map_of State_members state \<noteq> None)"

section \<open>The outside world\<close>

text \<open>
  What \<^verbatim>\<open>requests.get(url)\<close> returns: the status code and the result of
  \<^verbatim>\<open>response.json()\<close>, which raises when the body is not JSON.
\<close>

record response =
  status_code :: int
  json :: "error + pyval"

text \<open>
  The world that the module acts on: the constant \<^verbatim>\<open>MAPBOX_API_KEY\<close> of the module
  \<^verbatim>\<open>secrets\<close>, the geocoding service as a function of the URL (an \<open>Inl\<close> when
  \<^verbatim>\<open>requests.get\<close> itself raises) and the URLs requested so far, oldest first.
\<close>

record world =
  MAPBOX_API_KEY :: string
  server :: "string \<Rightarrow> error + response"
  requested :: "string list"

definition requests_get :: "string \<Rightarrow> world \<Rightarrow> (error + response) \<times> world" where
  "requests_get url w = (server w url, w\<lparr>requested := requested w @ [url]\<rparr>)"

section \<open>Subscripting\<close>

text \<open>
  \<^verbatim>\<open>xs[i]\<close> on a sequence: a negative index counts from the end, an index out of range
  raises \<^verbatim>\<open>IndexError\<close>.
\<close>

definition seq_index :: "'a list \<Rightarrow> int \<Rightarrow> error + 'a" where
  "seq_index xs i =
    (if 0 \<le> i \<and> i < int (length xs) then Inr (xs ! nat i)
     else if i < 0 \<and> - int (length xs) \<le> i then Inr (xs ! nat (int (length xs) + i))
     else Inl IndexError)"

text \<open>\<^verbatim>\<open>obj[key]\<close> with a string key, and \<^verbatim>\<open>obj[i]\<close> with an integer.\<close>

fun getitem_key :: "pyval \<Rightarrow> string \<Rightarrow> error + pyval" where
  "getitem_key (PDict d) k = (case map_of d k of None \<Rightarrow> Inl (KeyError k) | Some v \<Rightarrow> Inr v)"
| "getitem_key _ k = Inl TypeError"

fun getitem_idx :: "pyval \<Rightarrow> int \<Rightarrow> error + pyval" where
  "getitem_idx (PList xs) i = seq_index xs i"
| "getitem_idx (PTuple xs) i = seq_index xs i"
| "getitem_idx (PStr s) i = (case seq_index s i of Inl e \<Rightarrow> Inl e | Inr c \<Rightarrow> Inr (PStr [c]))"
| "getitem_idx (PDict d) i = Inl (KeyError (str_int i))"
| "getitem_idx _ i = Inl TypeError"

definition bind :: "error + 'a \<Rightarrow> ('a \<Rightarrow> error + 'b) \<Rightarrow> error + 'b" where
  "bind r f = (case r of Inl e \<Rightarrow> Inl e | Inr x \<Rightarrow> f x)"

section \<open>The Address class\<close>

text \<open>
  The five dataclass fields, as the generated \<^verbatim>\<open>__init__\<close> receives them. Each has the
  type of its annotation; \<open>None\<close> is Python's \<^verbatim>\<open>None\<close>, an absent value.
  The field \<^verbatim>\<open>zip\<close> is \<open>zip_field\<close> here.
\<close>

record fields =
  street1 :: "string option"
  street2 :: "string option"
  city :: "string option"
  state :: "string option"
  zip_field :: "int option"

text \<open>Truth value (\<^verbatim>\<open>not v\<close>) and f-string rendering (\<^verbatim>\<open>{v}\<close>) of a field.\<close>

definition truthy_str :: "string option \<Rightarrow> bool" where
  "truthy_str v = (case v of None \<Rightarrow> False | Some s \<Rightarrow> s \<noteq> [])"

definition truthy_int :: "int option \<Rightarrow> bool" where
  "truthy_int v = (case v of None \<Rightarrow> False | Some i \<Rightarrow> i \<noteq> 0)"

definition format_str :: "string option \<Rightarrow> string" where
  "format_str v = (case v of None \<Rightarrow> ''None'' | Some s \<Rightarrow> s)"

definition format_int :: "int option \<Rightarrow> string" where
  "format_int v = (case v of None \<Rightarrow> ''None'' | Some i \<Rightarrow> str_int i)"

text \<open>The truth value of \<^verbatim>\<open>getattr(self, field)\<close> before the coordinates are set.\<close>

definition getattr_truthy :: "fields \<Rightarrow> string \<Rightarrow> error + bool" where
  "getattr_truthy self field =
    (if field = ''street1'' then Inr (truthy_str (street1 self))
     else if field = ''street2'' then Inr (truthy_str (street2 self))
     else if field = ''city'' then Inr (truthy_str (city self))
     else if field = ''state'' then Inr (truthy_str (state self))
     else if field = ''zip'' then Inr (truthy_int (zip_field self))
     else Inl (AttributeError field))"

text \<open>
  The loop of \<^verbatim>\<open>__post_init__\<close> over the required field names: the first field whose
  value is false raises.
\<close>

fun check_required :: "fields \<Rightarrow> string list \<Rightarrow> error + unit" where
  "check_required self [] = Inr ()"
| "check_required self (field # rest) =
    (case getattr_truthy self field of
       Inl e \<Rightarrow> Inl e
     | Inr b \<Rightarrow>
         if \<not> b then Inl (ValueError (field @ '' cannot be empty.''))
         else check_required self rest)"

text \<open>\<^verbatim>\<open>__str__\<close>.\<close>

definition Address_str :: "fields \<Rightarrow> string" where
  "Address_str self =
    format_str (street1 self)
    @ (if truthy_str (street2 self) then '', '' @ format_str (street2 self) else [])
    @ '', '' @ format_str (city self) @ '', '' @ format_str (state self)
    @ '' '' @ format_int (zip_field self) @ ''.''"

text \<open>
  \<^verbatim>\<open>__get_coordinates\<close>: the search text and the URL (built without any quoting), one
  request, the status check, then \<^verbatim>\<open>response.json()["features"][0]["center"]\<close> and the
  pair \<^verbatim>\<open>(coordinates[1], coordinates[0])\<close>.
\<close>

definition search_text :: "fields \<Rightarrow> string" where
  "search_text self =
    format_str (street1 self) @ '', '' @ format_str (city self) @ '', ''
    @ format_str (state self) @ '' '' @ format_int (zip_field self)"

definition geocoding_url :: "fields \<Rightarrow> world \<Rightarrow> string" where
  "geocoding_url self w =
    (let endpoint = ''mapbox.places''
     in ''https://api.mapbox.com/geocoding/v5/'' @ endpoint @ ''/'' @ search_text self
        @ ''.json?access_token='' @ MAPBOX_API_KEY w)"

definition get_coordinates :: "fields \<Rightarrow> world \<Rightarrow> (error + pyval) \<times> world" where
  "get_coordinates self w =
    (case requests_get (geocoding_url self w) w of
       (Inl e, w') \<Rightarrow> (Inl e, w')
     | (Inr response, w') \<Rightarrow>
         if status_code response \<noteq> 200
         then (Inl (ValueError (''Could not get coordinates for '' @ Address_str self @ ''.'')), w')
         else
           (bind (json response) (\<lambda>payload.
            bind (getitem_key payload ''features'') (\<lambda>features.
            bind (getitem_idx features 0) (\<lambda>feature.
            bind (getitem_key feature ''center'') (\<lambda>coordinates.
            bind (getitem_idx coordinates 1) (\<lambda>c1.
            bind (getitem_idx coordinates 0) (\<lambda>c0.
            Inr (PTuple [c1, c0]))))))), w'))"

text \<open>
  \<^verbatim>\<open>__post_init__\<close>: the required fields, the state, then the coordinates. Its result
  is the value assigned to \<^verbatim>\<open>self.coordinates\<close>.
\<close>

definition post_init :: "fields \<Rightarrow> world \<Rightarrow> (error + pyval) \<times> world" where
  "post_init self w =
    (case check_required self [''street1'', ''city'', ''state'', ''zip''] of
       Inl e \<Rightarrow> (Inl e, w)
     | Inr _ \<Rightarrow>
         if \<not> (case state self of None \<Rightarrow> False | Some s \<Rightarrow> isValid s)
         then (Inl (ValueError (format_str (state self) @ '' is not a valid state.'')), w)
         else get_coordinates self w)"

text \<open>
  An instance is its \<^verbatim>\<open>__dict__\<close>: the attributes in the order they were assigned.
  After \<^verbatim>\<open>deserialize\<close> it can be any dictionary.
\<close>

type_synonym address = "(string \<times> pyval) list"

definition py_str :: "string option \<Rightarrow> pyval" where
  "py_str v = (case v of None \<Rightarrow> PNone | Some s \<Rightarrow> PStr s)"

definition py_int :: "int option \<Rightarrow> pyval" where
  "py_int v = (case v of None \<Rightarrow> PNone | Some i \<Rightarrow> PInt i)"

definition init_dict :: "fields \<Rightarrow> address" where
  "init_dict self =
    [(''street1'', py_str (street1 self)), (''street2'', py_str (street2 self)),
     (''city'', py_str (city self)), (''state'', py_str (state self)),
     (''zip'', py_int (zip_field self))]"

text \<open>
  \<^verbatim>\<open>Address(street1, street2, city, state, zip)\<close>: the fields are stored, \<^verbatim>\<open>__post_init__\<close>
  runs, and the caller gets the instance only when it did not raise.
\<close>

definition Address :: "fields \<Rightarrow> world \<Rightarrow> (error + address) \<times> world" where
  "Address self w =
    (case post_init self w of
       (Inl e, w') \<Rightarrow> (Inl e, w')
     | (Inr coordinates, w') \<Rightarrow> (Inr (init_dict self @ [(''coordinates'', coordinates)]), w'))"

text \<open>\<^verbatim>\<open>serialize\<close>: \<^verbatim>\<open>json.dumps(self.__dict__)\<close>.\<close>

definition serialize :: "address \<Rightarrow> string" where
  "serialize self = dumps (PDict self)"

text \<open>
  \<^verbatim>\<open>deserialize\<close>: \<^verbatim>\<open>self.__dict__ = json.loads(json_str)\<close>. The state is the instance
  and the world. When \<^verbatim>\<open>json.loads\<close> raises nothing is assigned; assigning a value that is
  not a dictionary to \<^verbatim>\<open>__dict__\<close> raises \<^verbatim>\<open>TypeError\<close> and leaves the instance as it was.
\<close>

definition deserialize :: "string \<Rightarrow> address \<times> world \<Rightarrow> (error + unit) \<times> address \<times> world" where
  "deserialize json_str \<sigma> =
    (case loads json_str of
       Inl e \<Rightarrow> (Inl e, \<sigma>)
     | Inr (PDict d) \<Rightarrow> (Inr (), (d, snd \<sigma>))
     | Inr _ \<Rightarrow> (Inl TypeError, \<sigma>))"

text \<open>
  The fields that pass both checks of \<^verbatim>\<open>__post_init__\<close>: the four required values are
  true, and the state is the one key of the registry.
\<close>

definition valid_fields :: "fields \<Rightarrow> bool" where
  "valid_fields f =
    (truthy_str (street1 f) \<and> truthy_str (city f) \<and> state f = Some ''NY''
     \<and> truthy_int (zip_field f))"

section \<open>JSON values\<close>

text \<open>
  The text of a float, as the codec writes and reads it: a number with a fraction or an
  exponent, or one of the three constants.
\<close>

definition is_float_text :: "string \<Rightarrow> bool" where
  "is_float_text r =
    (r = ''NaN'' \<or> r = ''Infinity'' \<or> r = ''-Infinity''
     \<or> (case match_number r of
           None \<Rightarrow> False
         | Some (integer, frac, exp, rest) \<Rightarrow> rest = [] \<and> (frac \<noteq> [] \<or> exp \<noteq> [])))"

text \<open>
  The values that a JSON decoder produces, such as the payload of a response: no tuples,
  floats with a float text, dictionaries without repeated keys. Every value that
  \<open>loads\<close> returns is one (lemma \<open>loads_is_json\<close>).
\<close>

fun is_json :: "pyval \<Rightarrow> bool" where
  "is_json PNone = True"
| "is_json (PBool b) = True"
| "is_json (PInt i) = True"
| "is_json (PFloat r) = is_float_text r"
| "is_json (PStr s) = True"
| "is_json (PList vs) = list_all is_json vs"
| "is_json (PTuple vs) = False"
| "is_json (PDict kvs) = (distinct (map fst kvs) \<and> list_all (\<lambda>kv. is_json (snd kv)) kvs)"

text \<open>What can follow a value in a JSON text: the end, a comma or a closing bracket.\<close>

definition delim :: "string \<Rightarrow> bool" where
  "delim rest =
    (case rest of [] \<Rightarrow> True | c # _ \<Rightarrow> c = CHR '','' \<or> c = CHR '']'' \<or> c = CHR ''}'')"

text \<open>One member of an object, as \<^verbatim>\<open>json.dumps\<close> writes it.\<close>

definition member_text :: "string \<times> pyval \<Rightarrow> string" where
  "member_text kv = encode_basestring_ascii (fst kv) @ '': '' @ dumps (snd kv)"

section \<open>Example data\<close>

text \<open>
  A world whose geocoding service answers every request with the same response, and the
  address \<^verbatim>\<open>Address("123 Main St", None, "Troy", "NY", 12180)\<close>.
\<close>

definition answering :: "response \<Rightarrow> world" where
  "answering r = \<lparr>MAPBOX_API_KEY = ''pk.test'', server = (\<lambda>url. Inr r), requested = []\<rparr>"

definition center_payload :: "pyval \<Rightarrow> pyval" where
  "center_payload c = PDict [(''type'', PStr ''FeatureCollection''),
                             (''features'', PList [PDict [(''id'', PStr ''address.1''), (''center'', c)]])]"

definition troy_response :: response where
  "troy_response =
    \<lparr>status_code = 200, json = Inr (center_payload (PList [PFloat ''-74.0'', PFloat ''40.7'']))\<rparr>"

definition troy :: fields where
  "troy = \<lparr>street1 = Some ''123 Main St'', street2 = None, city = Some ''Troy'',
           state = Some ''NY'', zip_field = Some 12180\<rparr>"

text \<open>The answer of the service when it finds nothing: status 200 and no features.\<close>

definition no_match_response :: response where
  "no_match_response =
    \<lparr>status_code = 200,
     json = Inr (PDict [(''type'', PStr ''FeatureCollection''), (''features'', PList [])])\<rparr>"

definition unauthorized_response :: response where
  "unauthorized_response =
    \<lparr>status_code = 401, json = Inr (PDict [(''message'', PStr ''Not Authorized'')])\<rparr>"

text \<open>An instance that was never constructed, and a serialized record with two keys.\<close>

definition blank :: address where
  "blank = []"


text \<open>The instance that construction returns for the address in Troy.\<close>

definition troy_address :: address where
  "troy_address =
    [(''street1'', PStr ''123 Main St''), (''street2'', PNone), (''city'', PStr ''Troy''),
     (''state'', PStr ''NY''), (''zip'', PInt 12180),
     (''coordinates'', PTuple [PFloat ''40.7'', PFloat ''-74.0''])]"

section \<open>Registry membership\<close>

text \<open>
  C9. \<open>isValid\<close> is a function from strings to booleans (pure and total: it has no error
  result), true exactly for the keys of the registry, whose only key is \<^verbatim>\<open>NY\<close>; the
  comparison is exact, so \<^verbatim>\<open>CA\<close>, \<^verbatim>\<open>ny\<close> and \<^verbatim>\<open>New York\<close> are not valid.
\<close>

theorem isValid_registry:
  "isValid code = (code \<in> fst ` set State_members)
   \<and> isValid code = (code = ''NY'')
   \<and> isValid ''NY'' \<and> \<not> isValid ''CA'' \<and> \<not> isValid ''ny'' \<and> \<not> isValid ''New York''"
  by (auto simp: isValid_def State_members_def)

section \<open>Construction\<close>

lemma check_required_eq:
  "check_required f [''street1'', ''city'', ''state'', ''zip''] =
    (if \<not> truthy_str (street1 f) then Inl (ValueError ''street1 cannot be empty.'')
     else if \<not> truthy_str (city f) then Inl (ValueError ''city cannot be empty.'')
     else if \<not> truthy_str (state f) then Inl (ValueError ''state cannot be empty.'')
     else if \<not> truthy_int (zip_field f) then Inl (ValueError ''zip cannot be empty.'')
     else Inr ())"
  by (simp add: getattr_truthy_def)

lemma truthy_str_iff: "truthy_str v = (v \<noteq> None \<and> v \<noteq> Some [])"
  by (cases v) (simp_all add: truthy_str_def)

lemma truthy_int_iff: "truthy_int v = (v \<noteq> None \<and> v \<noteq> Some 0)"
  by (cases v) (simp_all add: truthy_int_def)

lemma post_init_valid: "valid_fields f \<Longrightarrow> post_init f w = get_coordinates f w"
  by (simp add: valid_fields_def post_init_def check_required_eq truthy_str_def isValid_def
      State_members_def del: check_required.simps)

lemma post_init_invalid: "\<not> valid_fields f \<Longrightarrow> \<exists>e. post_init f w = (Inl e, w)"
  by (auto simp add: valid_fields_def post_init_def check_required_eq truthy_str_def isValid_def
      State_members_def simp del: check_required.simps split: option.splits)

lemma Address_Inr:
  "Address f w = (Inr a, w') \<longleftrightarrow>
     valid_fields f
     \<and> (\<exists>c. get_coordinates f w = (Inr c, w') \<and> a = init_dict f @ [(''coordinates'', c)])"
proof (cases "valid_fields f")
  case True
  then show ?thesis
    by (auto simp: Address_def post_init_valid split: prod.splits sum.splits)
next
  case False
  from post_init_invalid[OF this, of w] show ?thesis using False
    by (auto simp: Address_def)
qed

lemma get_coordinates_world:
  "snd (get_coordinates f w) = w\<lparr>requested := requested w @ [geocoding_url f w]\<rparr>"
  by (simp add: get_coordinates_def requests_get_def split: sum.splits)

lemma get_coordinates_status:
  "server w (geocoding_url f w) = Inr r \<Longrightarrow> status_code r \<noteq> 200 \<Longrightarrow>
   fst (get_coordinates f w) =
     Inl (ValueError (''Could not get coordinates for '' @ Address_str f @ ''.''))"
  by (simp add: get_coordinates_def requests_get_def)

lemma get_coordinates_ok:
  "server w (geocoding_url f w) = Inr r \<Longrightarrow> status_code r = 200 \<Longrightarrow> json r = Inr payload \<Longrightarrow>
   fst (get_coordinates f w) =
     bind (getitem_key payload ''features'') (\<lambda>features.
     bind (getitem_idx features 0) (\<lambda>feature.
     bind (getitem_key feature ''center'') (\<lambda>coordinates.
     bind (getitem_idx coordinates 1) (\<lambda>c1.
     bind (getitem_idx coordinates 0) (\<lambda>c0.
       Inr (PTuple [c1, c0]))))))"
  by (simp add: get_coordinates_def requests_get_def bind_def)

lemma Address_valid:
  "valid_fields f \<Longrightarrow>
   Address f w =
     (case fst (get_coordinates f w) of
        Inl e \<Rightarrow> Inl e
      | Inr c \<Rightarrow> Inr (init_dict f @ [(''coordinates'', c)]),
      w\<lparr>requested := requested w @ [geocoding_url f w]\<rparr>)"
  using get_coordinates_world[of f w]
  by (auto simp: Address_def post_init_valid split: prod.splits sum.splits)

lemma str_int_12180: "str_int 12180 = ''12180''"
  by (simp add: str_int_def str_nat.simps digit_char_def)

lemma valid_troy: "valid_fields troy" "valid_fields (troy\<lparr>street2 := Some ''Apt 4''\<rparr>)"
  by (simp_all add: valid_fields_def troy_def truthy_str_def truthy_int_def)

lemma server_answering: "server (answering r) url = Inr r"
  by (simp add: answering_def)

text \<open>
  C3. When one of the four required fields is empty, zero or \<open>None\<close>, construction raises
  \<^verbatim>\<open>ValueError("<field> cannot be empty.")\<close> for the first such field in the order
  \<^verbatim>\<open>street1\<close>, \<^verbatim>\<open>city\<close>, \<^verbatim>\<open>state\<close>, \<^verbatim>\<open>zip\<close>, and nothing is requested from the service.
  The last two conjuncts say what a false value is.
\<close>

theorem required_field_validation:
  "(\<not> truthy_str (street1 f) \<longrightarrow>
      Address f w = (Inl (ValueError ''street1 cannot be empty.''), w))
   \<and> (truthy_str (street1 f) \<and> \<not> truthy_str (city f) \<longrightarrow>
      Address f w = (Inl (ValueError ''city cannot be empty.''), w))
   \<and> (truthy_str (street1 f) \<and> truthy_str (city f) \<and> \<not> truthy_str (state f) \<longrightarrow>
      Address f w = (Inl (ValueError ''state cannot be empty.''), w))
   \<and> (truthy_str (street1 f) \<and> truthy_str (city f) \<and> truthy_str (state f)
        \<and> \<not> truthy_int (zip_field f) \<longrightarrow>
      Address f w = (Inl (ValueError ''zip cannot be empty.''), w))
   \<and> (\<not> truthy_str v) = (v = None \<or> v = Some [])
   \<and> (\<not> truthy_int z) = (z = None \<or> z = Some 0)"
  by (simp add: Address_def post_init_def check_required_eq truthy_str_iff truthy_int_iff
      del: check_required.simps)

theorem required_field_validation_witness:
  "Address (troy\<lparr>street1 := Some []\<rparr>) (answering troy_response)
     = (Inl (ValueError ''street1 cannot be empty.''), answering troy_response)
   \<and> Address (troy\<lparr>city := None\<rparr>) (answering troy_response)
     = (Inl (ValueError ''city cannot be empty.''), answering troy_response)
   \<and> Address (troy\<lparr>state := Some []\<rparr>) (answering troy_response)
     = (Inl (ValueError ''state cannot be empty.''), answering troy_response)
   \<and> Address (troy\<lparr>zip_field := Some 0\<rparr>) (answering troy_response)
     = (Inl (ValueError ''zip cannot be empty.''), answering troy_response)
   \<and> Address (troy\<lparr>city := Some [], zip_field := None\<rparr>) (answering troy_response)
     = (Inl (ValueError ''city cannot be empty.''), answering troy_response)"
  using required_field_validation [of "troy\<lparr>street1 := Some []\<rparr>" "answering troy_response"]
    required_field_validation [of "troy\<lparr>city := None\<rparr>" "answering troy_response"]
    required_field_validation [of "troy\<lparr>state := Some []\<rparr>" "answering troy_response"]
    required_field_validation [of "troy\<lparr>zip_field := Some 0\<rparr>" "answering troy_response"]
    required_field_validation [of "troy\<lparr>city := Some [], zip_field := None\<rparr>"
      "answering troy_response"]
  by (simp add: troy_def truthy_str_def truthy_int_def)

text \<open>
  C4. When the four required fields are true and the state is not \<^verbatim>\<open>NY\<close>, construction
  raises \<^verbatim>\<open>ValueError("<state> is not a valid state.")\<close> and the world is unchanged: no
  request was sent.
\<close>

theorem state_registry_validation:
  assumes "truthy_str (street1 f)" and "truthy_str (city f)" and "truthy_int (zip_field f)"
    and "state f = Some s" and "truthy_str (state f)" and "s \<noteq> ''NY''"
  shows "Address f w = (Inl (ValueError (s @ '' is not a valid state.'')), w)
         \<and> requested (snd (Address f w)) = requested w"
  using assms
  by (simp add: Address_def post_init_def check_required_eq truthy_str_def format_str_def
      isValid_def State_members_def del: check_required.simps)

theorem state_registry_validation_witness:
  "Address (troy\<lparr>state := Some ''CA''\<rparr>) (answering troy_response)
     = (Inl (ValueError ''CA is not a valid state.''), answering troy_response)
   \<and> requested (snd (Address (troy\<lparr>state := Some ''CA''\<rparr>) (answering troy_response))) = []"
  using state_registry_validation [of "troy\<lparr>state := Some ''CA''\<rparr>" "''CA''"
      "answering troy_response"]
  by (simp add: troy_def truthy_str_def truthy_int_def answering_def)

lemma get_coordinates_troy:
  "fst (get_coordinates troy (answering troy_response)) = Inr (PTuple [PFloat ''40.7'', PFloat ''-74.0''])"
  using get_coordinates_ok [of "answering troy_response" troy troy_response
      "center_payload (PList [PFloat ''-74.0'', PFloat ''40.7''])"]
  by (simp add: server_answering troy_response_def center_payload_def bind_def seq_index_def)

lemma init_dict_troy:
  "init_dict troy
     = [(''street1'', PStr ''123 Main St''), (''street2'', PNone), (''city'', PStr ''Troy''),
        (''state'', PStr ''NY''), (''zip'', PInt 12180)]"
  by (simp add: init_dict_def troy_def py_str_def py_int_def)

lemma Address_troy:
  "fst (Address troy (answering troy_response))
     = Inr [(''street1'', PStr ''123 Main St''), (''street2'', PNone), (''city'', PStr ''Troy''),
            (''state'', PStr ''NY''), (''zip'', PInt 12180),
            (''coordinates'', PTuple [PFloat ''40.7'', PFloat ''-74.0''])]"
  by (simp add: Address_valid [OF valid_troy(1)] get_coordinates_troy init_dict_troy)

text \<open>
  C7. When the fields are valid, the service answers 200 and
  \<^verbatim>\<open>features[0].center\<close> of the payload is the array \<^verbatim>\<open>[longitude, latitude]\<close>, the
  coordinates computed and stored are the tuple \<^verbatim>\<open>(latitude, longitude)\<close>, after exactly
  one request. The witness is the address in Troy with \<^verbatim>\<open>center = [-74.0, 40.7]\<close>, whose
  coordinates are \<^verbatim>\<open>(40.7, -74.0)\<close>.
\<close>

theorem coordinate_ordering:
  assumes "valid_fields f"
    and "server w (geocoding_url f w) = Inr r" and "status_code r = 200"
    and "json r = Inr payload"
    and "getitem_key payload ''features'' = Inr features"
    and "getitem_idx features 0 = Inr feature"
    and "getitem_key feature ''center'' = Inr (PList [longitude, latitude])"
  shows "get_coordinates f w
           = (Inr (PTuple [latitude, longitude]),
              w\<lparr>requested := requested w @ [geocoding_url f w]\<rparr>)
         \<and> Address f w
           = (Inr (init_dict f @ [(''coordinates'', PTuple [latitude, longitude])]),
              w\<lparr>requested := requested w @ [geocoding_url f w]\<rparr>)"
proof -
  have c: "fst (get_coordinates f w) = Inr (PTuple [latitude, longitude])"
    using assms get_coordinates_ok[of w f r payload] by (simp add: bind_def seq_index_def)
  have "get_coordinates f w = (fst (get_coordinates f w), snd (get_coordinates f w))"
    by simp
  then have "get_coordinates f w
      = (Inr (PTuple [latitude, longitude]), w\<lparr>requested := requested w @ [geocoding_url f w]\<rparr>)"
    using c get_coordinates_world[of f w] by simp
  moreover have "Address f w
      = (Inr (init_dict f @ [(''coordinates'', PTuple [latitude, longitude])]),
         w\<lparr>requested := requested w @ [geocoding_url f w]\<rparr>)"
    using assms(1) c by (simp add: Address_valid)
  ultimately show ?thesis by simp
qed

theorem coordinate_ordering_witness:
  "fst (Address troy (answering troy_response))
     = Inr [(''street1'', PStr ''123 Main St''), (''street2'', PNone), (''city'', PStr ''Troy''),
            (''state'', PStr ''NY''), (''zip'', PInt 12180),
            (''coordinates'', PTuple [PFloat ''40.7'', PFloat ''-74.0''])]
   \<and> fst (get_coordinates troy (answering troy_response))
     = Inr (PTuple [PFloat ''40.7'', PFloat ''-74.0''])"
  using coordinate_ordering [of troy "answering troy_response" troy_response
      "center_payload (PList [PFloat ''-74.0'', PFloat ''40.7''])"
      "PList [PDict [(''id'', PStr ''address.1''),
                     (''center'', PList [PFloat ''-74.0'', PFloat ''40.7''])]]"
      "PDict [(''id'', PStr ''address.1''), (''center'', PList [PFloat ''-74.0'', PFloat ''40.7''])]"
      "PFloat ''-74.0''" "PFloat ''40.7''"]
    valid_troy(1)
  by (simp add: server_answering troy_response_def center_payload_def seq_index_def
      init_dict_troy)

text \<open>
  C8. For a constructed address \<^verbatim>\<open>__str__\<close> is
  \<^verbatim>\<open><street1>[, <street2>], <city>, <state> <zip>.\<close>, where the street2 segment is there
  only when street2 is a non-empty string, the state is \<^verbatim>\<open>NY\<close> and the zip is written in
  decimal; the two examples of the specification are the last two conjuncts.
\<close>

theorem display_formatting:
  "(Address f w = (Inr a, w') \<longrightarrow>
      (\<exists>s1 c z. street1 f = Some s1 \<and> city f = Some c \<and> state f = Some ''NY''
         \<and> zip_field f = Some z
         \<and> Address_str f =
             s1 @ (case street2 f of None \<Rightarrow> [] | Some s2 \<Rightarrow> if s2 = [] then [] else '', '' @ s2)
             @ '', '' @ c @ '', '' @ ''NY'' @ '' '' @ str_int z @ ''.''))
   \<and> Address_str troy = ''123 Main St, Troy, NY 12180.''
   \<and> Address_str (troy\<lparr>street2 := Some ''Apt 4''\<rparr>) = ''123 Main St, Apt 4, Troy, NY 12180.''"
proof -
  have "\<exists>s1 c z. street1 f = Some s1 \<and> city f = Some c \<and> state f = Some ''NY''
         \<and> zip_field f = Some z
         \<and> Address_str f =
             s1 @ (case street2 f of None \<Rightarrow> [] | Some s2 \<Rightarrow> if s2 = [] then [] else '', '' @ s2)
             @ '', '' @ c @ '', '' @ ''NY'' @ '' '' @ str_int z @ ''.''"
    if "valid_fields f"
    using that
    by (auto simp: valid_fields_def Address_str_def truthy_str_def truthy_int_def format_str_def
        format_int_def split: option.splits)
  moreover have "Address_str troy = ''123 Main St, Troy, NY 12180.''"
    by (simp add: Address_str_def troy_def truthy_str_def format_str_def format_int_def
        str_int_12180)
  moreover have "Address_str (troy\<lparr>street2 := Some ''Apt 4''\<rparr>)
      = ''123 Main St, Apt 4, Troy, NY 12180.''"
    by (simp add: Address_str_def troy_def truthy_str_def format_str_def format_int_def
        str_int_12180)
  ultimately show ?thesis
    by (simp add: Address_Inr)
qed

theorem display_formatting_witness:
  "(\<exists>a w'. Address troy (answering troy_response) = (Inr a, w'))
   \<and> Address_str troy = ''123 Main St'' @ [] @ '', '' @ ''Troy'' @ '', '' @ ''NY'' @ '' ''
        @ str_int 12180 @ ''.''"
proof -
  obtain a w' where c: "Address troy (answering troy_response) = (Inr a, w')"
    using Address_troy by (cases "Address troy (answering troy_response)") simp
  from display_formatting [of troy "answering troy_response" a w'] c
  have "Address_str troy = ''123 Main St'' @ [] @ '', '' @ ''Troy'' @ '', '' @ ''NY'' @ '' ''
        @ str_int 12180 @ ''.''"
    by (auto simp: troy_def)
  with c show ?thesis by blast
qed

section \<open>Failure of the lookup\<close>

lemma geocoding_status_failure:
  assumes "valid_fields f" and "server w (geocoding_url f w) = Inr r" and "status_code r \<noteq> 200"
  shows "Address f w
     = (Inl (ValueError (''Could not get coordinates for '' @ Address_str f @ ''.'')),
        w\<lparr>requested := requested w @ [geocoding_url f w]\<rparr>)"
  using assms by (simp add: Address_valid get_coordinates_status)

lemma geocoding_empty_features:
  assumes "valid_fields f" and "server w (geocoding_url f w) = Inr r" and "status_code r = 200"
    and "json r = Inr payload" and "getitem_key payload ''features'' = Inr (PList [])"
  shows "Address f w = (Inl IndexError, w\<lparr>requested := requested w @ [geocoding_url f w]\<rparr>)"
  using assms get_coordinates_ok [of w f r payload]
  by (simp add: Address_valid bind_def seq_index_def)

lemma Address_str_troy: "Address_str troy = ''123 Main St, Troy, NY 12180.''"
  by (simp add: Address_str_def troy_def truthy_str_def format_str_def format_int_def
      str_int_12180)

text \<open>
  C2. The address in Troy passes validation. When the service answers 401, construction
  raises the \<^verbatim>\<open>ValueError\<close> of the status check. When the service answers 200 with an
  empty \<^verbatim>\<open>features\<close> array, \<^verbatim>\<open>["features"][0]\<close> raises \<^verbatim>\<open>IndexError\<close>: no address is
  returned, but the error is not the \<^verbatim>\<open>ValueError\<close> that reports a failed lookup.
\<close>

theorem no_match_raises_IndexError:
  "valid_fields troy
   \<and> fst (Address troy (answering unauthorized_response))
       = Inl (ValueError ''Could not get coordinates for 123 Main St, Troy, NY 12180..'')
   \<and> fst (Address troy (answering no_match_response)) = Inl IndexError
   \<and> fst (Address troy (answering no_match_response))
       \<noteq> Inl (ValueError (''Could not get coordinates for '' @ Address_str troy @ ''.''))"
proof -
  have "fst (Address troy (answering unauthorized_response))
       = Inl (ValueError ''Could not get coordinates for 123 Main St, Troy, NY 12180..'')"
    using geocoding_status_failure [OF valid_troy(1), of "answering unauthorized_response"
        unauthorized_response]
    by (simp add: server_answering unauthorized_response_def Address_str_troy)
  moreover have "fst (Address troy (answering no_match_response)) = Inl IndexError"
    using geocoding_empty_features [OF valid_troy(1), of "answering no_match_response"
        no_match_response "PDict [(''type'', PStr ''FeatureCollection''), (''features'', PList [])]"]
    by (simp add: server_answering no_match_response_def)
  ultimately show ?thesis
    by (simp add: valid_troy)
qed

section \<open>The round trip through JSON\<close>

subsection \<open>Digits\<close>

lemma lt10_cases: "d < 10 \<Longrightarrow> d = 0 \<or> d = 1 \<or> d = 2 \<or> d = 3 \<or> d = 4 \<or> d = 5 \<or> d = 6 \<or> d = 7 \<or> d = 8 \<or> d = (9::nat)"
  by arith

lemma digit_char_props:
  assumes "d < 10"
  shows "is_digit (digit_char d)" and "digit_val (digit_char d) = d"
    and "digit_char d = CHR ''0'' \<longleftrightarrow> d = 0" and "digit_char d \<noteq> CHR ''-''"
  using lt10_cases[OF assms] by (auto simp: digit_char_def is_digit_def digit_val_def)

lemma str_nat_small: "n < 10 \<Longrightarrow> str_nat n = [digit_char n]"
  by (simp add: str_nat.simps)

lemma str_nat_big: "\<not> n < 10 \<Longrightarrow> str_nat n = str_nat (n div 10) @ [digit_char (n mod 10)]"
  by (subst str_nat.simps) simp

lemma str_nat_digits: "list_all is_digit (str_nat n)"
proof (induction n rule: str_nat.induct)
  case (1 n)
  show ?case
  proof (cases "n < 10")
    case True
    then show ?thesis by (simp add: str_nat_small digit_char_props)
  next
    case False
    with 1 show ?thesis by (simp add: str_nat_big digit_char_props)
  qed
qed

lemma str_nat_nonempty: "str_nat n \<noteq> []"
  by (cases "n < 10") (simp_all add: str_nat_small str_nat_big)

lemma str_nat_hd: "0 < n \<Longrightarrow> hd (str_nat n) \<noteq> CHR ''0''"
proof (induction n rule: str_nat.induct)
  case (1 n)
  show ?case
  proof (cases "n < 10")
    case True
    with 1(2) show ?thesis by (simp add: str_nat_small digit_char_props)
  next
    case False
    then have "0 < n div 10" by simp
    with 1(1) False have "hd (str_nat (n div 10)) \<noteq> CHR ''0''" by simp
    then show ?thesis using False by (simp add: str_nat_big str_nat_nonempty)
  qed
qed

lemma nat_of_digits_snoc: "nat_of_digits (ds @ [c]) = 10 * nat_of_digits ds + digit_val c"
  by (simp add: nat_of_digits_def)

lemma nat_of_digits_str_nat: "nat_of_digits (str_nat n) = n"
proof (induction n rule: str_nat.induct)
  case (1 n)
  show ?case
  proof (cases "n < 10")
    case True
    then show ?thesis by (simp add: str_nat_small nat_of_digits_def digit_char_props)
  next
    case False
    with 1 show ?thesis by (simp add: str_nat_big nat_of_digits_snoc digit_char_props)
  qed
qed

lemma int_of_text_str_int: "int_of_text (str_int i) = i"
proof (cases "i < 0")
  case True
  then show ?thesis by (simp add: int_of_text_def str_int_def nat_of_digits_str_nat)
next
  case False
  obtain c cs where s: "str_nat (nat i) = c # cs"
    using str_nat_nonempty[of "nat i"] by (cases "str_nat (nat i)") auto
  have "is_digit c" using str_nat_digits[of "nat i"] s by simp
  then have "c \<noteq> CHR ''-''" by (auto simp: is_digit_def)
  then show ?thesis using False s nat_of_digits_str_nat[of "nat i"]
    by (simp add: int_of_text_def str_int_def)
qed

subsection \<open>Numbers\<close>

lemma delim_hd:
  "delim (c # cs) \<Longrightarrow> \<not> is_digit c \<and> c \<noteq> CHR ''.'' \<and> c \<noteq> CHR ''e'' \<and> c \<noteq> CHR ''E''
     \<and> c \<noteq> CHR ''+'' \<and> c \<noteq> CHR ''-'' \<and> \<not> is_ws c"
  by (auto simp: delim_def is_digit_def is_ws_def)

lemma takeWhile_digits_append:
  "delim rest \<Longrightarrow> takeWhile is_digit (xs @ rest) = takeWhile is_digit xs"
  by (induction xs) (auto simp: delim_def is_digit_def split: list.splits)

lemma dropWhile_digits_append:
  "delim rest \<Longrightarrow> dropWhile is_digit (xs @ rest) = dropWhile is_digit xs @ rest"
  by (induction xs) (auto simp: delim_def is_digit_def split: list.splits)

lemma match_integer_append:
  assumes "match_integer s = Some (i, t)" and "delim rest"
  shows "match_integer (s @ rest) = Some (i, t @ rest)"
proof (cases s)
  case Nil
  with assms(1) show ?thesis by (simp add: match_integer_def)
next
  case (Cons c cs)
  show ?thesis
  proof (cases "c = CHR ''-''")
    case True
    with Cons assms show ?thesis
      by (cases cs)
        (auto simp: match_integer_def Let_def takeWhile_digits_append dropWhile_digits_append
          split: if_splits)
  next
    case False
    with Cons assms show ?thesis
      by (auto simp: match_integer_def Let_def takeWhile_digits_append dropWhile_digits_append
          split: if_splits)
  qed
qed

lemma match_frac_append:
  assumes "match_frac t = (f, t')" and "delim rest"
  shows "match_frac (t @ rest) = (f, t' @ rest)"
proof (cases t)
  case Nil
  with assms show ?thesis
    by (cases rest) (auto simp: match_frac_def delim_def split: list.splits)
next
  case (Cons c cs)
  show ?thesis
  proof (cases cs)
    case Nil
    with Cons assms show ?thesis
      by (cases rest) (auto simp: match_frac_def dest: delim_hd split: list.splits)
  next
    case (Cons d ds)
    with \<open>t = c # cs\<close> assms show ?thesis
      by (auto simp: match_frac_def takeWhile_digits_append dropWhile_digits_append
          split: if_splits)
  qed
qed

lemma match_exp_append:
  assumes "match_exp t = (x, t')" and "delim rest"
  shows "match_exp (t @ rest) = (x, t' @ rest)"
proof (cases t)
  case Nil
  with assms show ?thesis
    by (cases rest) (auto simp: match_exp_def delim_def split: list.splits)
next
  case t: (Cons e cs)
  show ?thesis
  proof (cases "e = CHR ''e'' \<or> e = CHR ''E''")
    case False
    with t assms show ?thesis by (auto simp: match_exp_def)
  next
    case eE: True
    show ?thesis
    proof (cases cs)
      case Nil
      with t eE assms show ?thesis
        by (cases rest) (auto simp: match_exp_def dest: delim_hd)
    next
      case cs: (Cons s ds)
      show ?thesis
      proof (cases "s = CHR ''+'' \<or> s = CHR ''-''")
        case False
        with t eE cs assms show ?thesis
          by (auto simp: match_exp_def takeWhile_digits_append dropWhile_digits_append
              split: if_splits)
      next
        case True
        with t eE cs assms show ?thesis
          by (cases ds; cases rest)
            (auto simp: match_exp_def takeWhile_digits_append dropWhile_digits_append
              dest: delim_hd split: if_splits)
      qed
    qed
  qed
qed

lemma match_number_append:
  assumes "match_number s = Some (i, f, x, t)" and "delim rest"
  shows "match_number (s @ rest) = Some (i, f, x, t @ rest)"
  using assms
  by (auto simp: match_number_def match_integer_append match_frac_append match_exp_append
      split: option.splits prod.splits)

lemma match_integer_text: "match_integer s = Some (i, t) \<Longrightarrow> s = i @ t"
  by (cases s; cases "tl s")
    (auto simp: match_integer_def Let_def split: list.splits if_splits)

lemma match_frac_text: "match_frac s = (f, t) \<Longrightarrow> s = f @ t"
  by (auto simp: match_frac_def split: list.splits if_splits)

lemma match_exp_text: "match_exp s = (x, t) \<Longrightarrow> s = x @ t"
  by (cases s; cases "tl s")
   (auto simp: match_exp_def split: list.splits if_splits)

lemma match_number_text: "match_number s = Some (i, f, x, t) \<Longrightarrow> s = i @ f @ x @ t"
  by (auto simp: match_number_def split: option.splits prod.splits
      dest!: match_integer_text match_frac_text match_exp_text)

lemma match_integer_hd:
  "match_integer (c # cs) = Some x \<Longrightarrow> c = CHR ''-'' \<or> is_digit c"
  by (auto simp: match_integer_def is_digit_def split: list.splits if_splits)

lemma match_integer_str_nat:
  "match_integer (str_nat n) = Some (str_nat n, [])"
proof -
  obtain c cs where s: "str_nat n = c # cs"
    using str_nat_nonempty[of n] by (cases "str_nat n") auto
  have d: "is_digit c" "list_all is_digit cs" using str_nat_digits[of n] s by simp_all
  then have nm: "c \<noteq> CHR ''-''" by (auto simp: is_digit_def)
  have tw: "takeWhile is_digit cs = cs" "dropWhile is_digit cs = []"
    using d(2) by (simp_all add: list_all_iff)
  show ?thesis
  proof (cases "n = 0")
    case True
    then show ?thesis by (simp add: str_nat_small digit_char_def match_integer_def)
  next
    case False
    then have "hd (str_nat n) \<noteq> CHR ''0''" using str_nat_hd[of n] by simp
    then have "c \<noteq> CHR ''0''" using s by simp
    then show ?thesis using s nm d tw by (simp add: match_integer_def)
  qed
qed

lemma match_integer_str_int:
  "match_integer (str_int i) = Some (str_int i, [])"
proof (cases "i < 0")
  case False
  then show ?thesis by (simp add: str_int_def match_integer_str_nat)
next
  case True
  let ?n = "nat (- i)"
  obtain c cs where s: "str_nat ?n = c # cs"
    using str_nat_nonempty[of ?n] by (cases "str_nat ?n") auto
  have d: "is_digit c" "list_all is_digit cs" using str_nat_digits[of ?n] s by simp_all
  have tw: "takeWhile is_digit cs = cs" "dropWhile is_digit cs = []"
    using d(2) by (simp_all add: list_all_iff)
  have "0 < ?n" using True by simp
  then have "hd (str_nat ?n) \<noteq> CHR ''0''" by (rule str_nat_hd)
  then have "c \<noteq> CHR ''0''" using s by simp
  then show ?thesis using True s d tw by (simp add: str_int_def match_integer_def)
qed

lemma match_frac_delim: "delim rest \<Longrightarrow> match_frac rest = ([], rest)"
  by (auto simp: match_frac_def delim_def split: list.splits)

lemma match_exp_delim: "delim rest \<Longrightarrow> match_exp rest = ([], rest)"
  by (auto simp: match_exp_def delim_def split: list.splits)

lemma match_number_str_int:
  assumes "delim rest"
  shows "match_number (str_int i @ rest) = Some (str_int i, [], [], rest)"
  using match_integer_append[OF match_integer_str_int assms, of i] assms
  by (simp add: match_number_def match_frac_delim match_exp_delim)

lemma scan_once_number:
  assumes "match_number (c # cs) = Some (i, f, x, r)"
  shows "scan_once (Suc n) (c # cs) =
    (if f \<noteq> [] \<or> x \<noteq> [] then Inr (PFloat (i @ f @ x), r) else Inr (PInt (int_of_text i), r))"
proof -
  have "match_integer (c # cs) \<noteq> None"
    using assms by (auto simp: match_number_def split: option.splits)
  then have "c = CHR ''-'' \<or> is_digit c" using match_integer_hd by blast
  then have "c \<noteq> dquote" "c \<noteq> CHR ''{''" "c \<noteq> CHR ''[''" "c \<noteq> CHR ''n''" "c \<noteq> CHR ''t''"
    "c \<noteq> CHR ''f''"
    by (auto simp: is_digit_def)
  then show ?thesis using assms by simp
qed

lemma str_int_Cons: "\<exists>c cs. str_int i = c # cs \<and> (c = CHR ''-'' \<or> is_digit c)"
proof (cases "i < 0")
  case True
  then show ?thesis by (simp add: str_int_def)
next
  case False
  obtain c cs where s: "str_nat (nat i) = c # cs"
    using str_nat_nonempty[of "nat i"] by (cases "str_nat (nat i)") auto
  then have "is_digit c" using str_nat_digits[of "nat i"] by simp
  with s False show ?thesis by (simp add: str_int_def)
qed

lemma scan_once_int:
  assumes "delim rest"
  shows "scan_once (Suc n) (str_int i @ rest) = Inr (PInt i, rest)"
proof -
  obtain c cs where s: "str_int i = c # cs" using str_int_Cons by blast
  have "match_number (c # (cs @ rest)) = Some (str_int i, [], [], rest)"
    using match_number_str_int[OF assms, of i] s by simp
  from scan_once_number[OF this, of n] show ?thesis
    using s int_of_text_str_int[of i] by (simp del: scan_once.simps)
qed

lemma is_float_text_cases:
  assumes "is_float_text r"
  obtains "r = ''NaN''" | "r = ''Infinity''" | "r = ''-Infinity''"
  | i f x where "match_number r = Some (i, f, x, [])" "f \<noteq> [] \<or> x \<noteq> []"
  using assms by (auto simp: is_float_text_def split: option.splits)

lemma scan_once_float:
  assumes "is_float_text r" and "delim rest"
  shows "scan_once (Suc n) (r @ rest) = Inr (PFloat r, rest)"
  using assms(1)
proof (cases rule: is_float_text_cases)
  case 1
  then show ?thesis by (simp add: match_number_def match_integer_def is_digit_def)
next
  case 2
  then show ?thesis by (simp add: match_number_def match_integer_def is_digit_def)
next
  case 3
  then show ?thesis by (simp add: match_number_def match_integer_def is_digit_def)
next
  case (4 i f x)
  have t: "r = i @ f @ x" using match_number_text[OF 4(1)] by simp
  have m: "match_number (r @ rest) = Some (i, f, x, rest)"
    using match_number_append[OF 4(1) assms(2)] by simp
  have "r \<noteq> []" using 4(1) by (auto simp: match_number_def match_integer_def)
  then obtain c cs where s: "r = c # cs" by (cases r) auto
  from m s have "match_number (c # (cs @ rest)) = Some (i, f, x, rest)" by simp
  from scan_once_number[OF this, of n] show ?thesis
    using s 4(2) t by (auto simp del: scan_once.simps)
qed

subsection \<open>Strings\<close>

lemma lt16_cases:
  "d < 16 \<Longrightarrow> d = 0 \<or> d = 1 \<or> d = 2 \<or> d = 3 \<or> d = 4 \<or> d = 5 \<or> d = 6 \<or> d = 7 \<or> d = 8 \<or> d = 9
     \<or> d = 10 \<or> d = 11 \<or> d = 12 \<or> d = 13 \<or> d = 14 \<or> d = (15::nat)"
  by arith

lemma hex_val_hex_char:
  assumes "d < 16"
  shows "hex_val (hex_char d) = Some d"
  using lt16_cases[OF assms]
  by (elim disjE) (simp_all add: hex_val_def hex_char_def is_digit_def)

lemma decode_escape:
  "decode_uXXXX (CHR ''0'' # CHR ''0'' # hex_char (of_char c div 16) # hex_char (of_char c mod 16) # t)
     = Some (of_char c)"
proof -
  have "(of_char c :: nat) div 16 < 16"
    using nat_of_char_less_256[of c] by arith
  then have h1: "hex_val (hex_char (of_char c div 16)) = Some (of_char c div 16)"
    by (rule hex_val_hex_char)
  have h2: "hex_val (hex_char (of_char c mod 16)) = Some (of_char c mod 16)"
    by (rule hex_val_hex_char) simp
  have h0: "hex_val CHR ''0'' = Some 0"
    by (simp add: hex_val_def is_digit_def)
  show ?thesis
    by (simp add: decode_uXXXX_def h0 h1 h2)
qed

lemma scanstring_escape_char:
  "scanstring (escape_char c @ t) =
    (case scanstring t of Inl e \<Rightarrow> Inl e | Inr (str, r) \<Rightarrow> Inr (c # str, r))"
proof -
  have lt: "(of_char c :: nat) < 256" by simp
  have cinv: "char_of (of_char c :: nat) = c" by simp
  show ?thesis
    using decode_escape[of c t] lt cinv
    by (auto simp add: escape_char_def BACKSLASH_def simp del: char_of_char nat_of_char_less_256
        split: sum.splits)
qed

lemma scanstring_encoded:
  "scanstring (concat (map escape_char s) @ dquote # rest) = Inr (s, rest)"
  by (induction s) (simp_all add: scanstring_escape_char)

subsection \<open>Values\<close>

lemma skip_ws_Cons: "\<not> is_ws c \<Longrightarrow> skip_ws (c # cs) = c # cs"
  by (simp add: skip_ws_def)

lemma skip_ws_space: "skip_ws (CHR '' '' # cs) = skip_ws cs"
  by (simp add: skip_ws_def is_ws_def)

lemma skip_ws_Nil: "skip_ws [] = []"
  by (simp add: skip_ws_def)

lemma join_Cons: "join sep (x # xs) = x @ (if xs = [] then [] else sep @ join sep xs)"
  by (cases xs) simp_all

lemma is_float_text_hd:
  assumes "is_float_text r"
  shows "\<exists>c cs. r = c # cs \<and> (c = CHR ''N'' \<or> c = CHR ''I'' \<or> c = CHR ''-'' \<or> is_digit c)"
  using assms
proof (cases rule: is_float_text_cases)
  case (4 i f x)
  then have "match_integer r \<noteq> None" by (auto simp: match_number_def split: option.splits)
  then show ?thesis using match_integer_hd[of "hd r" "tl r"]
    by (cases r) (auto simp: match_integer_def)
qed auto

lemma start_char:
  "c = CHR ''N'' \<or> c = CHR ''I'' \<or> c = CHR ''-'' \<or> is_digit c \<or> c = dquote \<or> c = CHR ''{''
     \<or> c = CHR ''['' \<or> c = CHR ''n'' \<or> c = CHR ''t'' \<or> c = CHR ''f''
   \<Longrightarrow> \<not> is_ws c \<and> c \<noteq> CHR '']'' \<and> c \<noteq> CHR ''}''"
  by (auto simp: is_ws_def is_digit_def)

lemma dumps_hd:
  assumes "is_json v"
  shows "\<exists>c cs. dumps v = c # cs \<and> \<not> is_ws c \<and> c \<noteq> CHR '']'' \<and> c \<noteq> CHR ''}''"
proof (cases v)
  case (PInt i)
  then show ?thesis using str_int_Cons[of i] start_char by fastforce
next
  case (PFloat r)
  then show ?thesis using is_float_text_hd[of r] assms start_char by fastforce
next
  case (PStr s)
  then show ?thesis by (simp add: encode_basestring_ascii_def is_ws_def)
qed (use assms in \<open>auto simp: is_ws_def\<close>)

lemma dict_set_fresh: "k \<notin> fst ` set d \<Longrightarrow> dict_set d k v = d @ [(k, v)]"
  by (induction d) auto

lemma dict_fold_distinct:
  "distinct (map fst (acc @ kvs)) \<Longrightarrow>
   foldl (\<lambda>d kv. dict_set d (fst kv) (snd kv)) acc kvs = acc @ kvs"
proof (induction kvs arbitrary: acc)
  case Nil
  then show ?case by simp
next
  case (Cons kv kvs)
  have "fst kv \<notin> fst ` set acc" using Cons.prems by auto
  then have "dict_set acc (fst kv) (snd kv) = acc @ [kv]" by (simp add: dict_set_fresh)
  moreover have "distinct (map fst ((acc @ [kv]) @ kvs))" using Cons.prems by simp
  ultimately show ?case using Cons.IH[of "acc @ [kv]"] by simp
qed

lemma dict_of_pairs_distinct: "distinct (map fst kvs) \<Longrightarrow> dict_of_pairs kvs = kvs"
  using dict_fold_distinct[of "[]" kvs] by (simp add: dict_of_pairs_def)

lemma delim_simps: "delim []" "delim (CHR '','' # t)" "delim (CHR '']'' # t)" "delim (CHR ''}'' # t)"
  by (simp_all add: delim_def)

lemma scan_items_encoded:
  assumes "\<And>v n rest. v \<in> set vs \<Longrightarrow> length (dumps v) < n \<Longrightarrow> delim rest \<Longrightarrow>
             scan_once n (dumps v @ rest) = Inr (v, rest)"
    and "vs \<noteq> []" and "list_all is_json vs"
    and "length (join '', '' (map dumps vs)) + 1 < n"
  shows "scan_items n (join '', '' (map dumps vs) @ CHR '']'' # rest) = Inr (vs, rest)"
  using assms
proof (induction vs arbitrary: n)
  case Nil
  then show ?case by simp
next
  case (Cons v ws)
  obtain m where n: "n = Suc m" using Cons.prems(4) by (cases n) auto
  show ?case
  proof (cases ws)
    case Nil
    have "scan_once m (dumps v @ CHR '']'' # rest) = Inr (v, CHR '']'' # rest)"
      using Cons.prems(1)[of v m "CHR '']'' # rest"] Cons.prems(4) n Nil
      by (simp add: delim_simps)
    then show ?thesis using n Nil by (simp add: skip_ws_Cons is_ws_def)
  next
    case ws: (Cons w us)
    let ?T = "join '', '' (map dumps ws)"
    have len: "length (dumps v) < m" "length ?T + 1 < m"
      using Cons.prems(4) n ws by (simp_all add: join_Cons)
    have first: "scan_once m (dumps v @ CHR '','' # CHR '' '' # ?T @ CHR '']'' # rest)
        = Inr (v, CHR '','' # CHR '' '' # ?T @ CHR '']'' # rest)"
      using Cons.prems(1)[of v m] len(1) by (simp add: delim_simps)
    have "is_json w" using Cons.prems(3) ws by simp
    then obtain c cs where c: "dumps w = c # cs" "\<not> is_ws c" using dumps_hd by blast
    then have sk: "skip_ws (?T @ CHR '']'' # rest) = ?T @ CHR '']'' # rest"
      using ws by (simp add: join_Cons skip_ws_Cons)
    have tl: "scan_items m (?T @ CHR '']'' # rest) = Inr (ws, rest)"
      using Cons.IH[of m] Cons.prems(1,3) len(2) ws by simp
    show ?thesis
      using n ws first sk tl
      by (simp add: join_Cons skip_ws_Cons skip_ws_space is_ws_def)
  qed
qed

lemma scan_members_encoded:
  assumes "\<And>kv n rest. kv \<in> set kvs \<Longrightarrow> length (dumps (snd kv)) < n \<Longrightarrow> delim rest \<Longrightarrow>
             scan_once n (dumps (snd kv) @ rest) = Inr (snd kv, rest)"
    and "kvs \<noteq> []" and "list_all (\<lambda>kv. is_json (snd kv)) kvs"
    and "length (join '', '' (map member_text kvs)) + 1 < n"
  shows "scan_members n (join '', '' (map member_text kvs) @ CHR ''}'' # rest) = Inr (kvs, rest)"
  using assms
proof (induction kvs arbitrary: n)
  case Nil
  then show ?case by simp
next
  case (Cons kv ws)
  obtain m where n: "n = Suc m" using Cons.prems(4) by (cases n) auto
  obtain k v where kv: "kv = (k, v)" by (cases kv)
  have "is_json v" using Cons.prems(3) kv by simp
  then obtain c cs where c: "dumps v = c # cs" "\<not> is_ws c" using dumps_hd by blast
  have key: "\<And>t. scanstring (concat (map escape_char k) @ dquote # t) = Inr (k, t)"
    by (rule scanstring_encoded)
  have ml: "length (member_text kv) = length (encode_basestring_ascii k) + 2 + length (dumps v)"
    using kv by (simp add: member_text_def)
  have mt: "\<And>t. member_text kv @ t
      = dquote # concat (map escape_char k) @ dquote # CHR '':'' # CHR '' '' # c # cs @ t"
    using kv c by (simp add: member_text_def encode_basestring_ascii_def)
  show ?case
  proof (cases ws)
    case Nil
    have "length (dumps v) < m"
      using Cons.prems(4) n Nil ml by simp
    then have "scan_once m (dumps v @ CHR ''}'' # rest) = Inr (v, CHR ''}'' # rest)"
      using Cons.prems(1)[of kv m "CHR ''}'' # rest"] kv by (simp add: delim_simps)
    then have first: "scan_once m (c # cs @ CHR ''}'' # rest) = Inr (v, CHR ''}'' # rest)"
      using c by simp
    have "scan_members (Suc m) (member_text kv @ CHR ''}'' # rest) = Inr ([(k, v)], rest)"
      unfolding mt using c(2) key first
      by (simp add: skip_ws_Cons skip_ws_space is_ws_def)
    then show ?thesis using n Nil kv by simp
  next
    case ws: (Cons w us)
    let ?T = "join '', '' (map member_text ws)"
    have jl: "join '', '' (map member_text (kv # ws)) = member_text kv @ '', '' @ ?T"
      using ws by (simp add: join_Cons)
    have len: "length (dumps v) < m" "length ?T + 1 < m"
      using Cons.prems(4) n ml unfolding jl by simp_all
    have "scan_once m (dumps v @ CHR '','' # CHR '' '' # ?T @ CHR ''}'' # rest)
        = Inr (v, CHR '','' # CHR '' '' # ?T @ CHR ''}'' # rest)"
      using Cons.prems(1)[of kv m] len(1) kv by (simp add: delim_simps)
    then have first: "scan_once m (c # cs @ CHR '','' # CHR '' '' # ?T @ CHR ''}'' # rest)
        = Inr (v, CHR '','' # CHR '' '' # ?T @ CHR ''}'' # rest)"
      using c by simp
    have sk: "skip_ws (?T @ CHR ''}'' # rest) = ?T @ CHR ''}'' # rest"
      using ws by (simp add: join_Cons skip_ws_Cons member_text_def encode_basestring_ascii_def
          is_ws_def)
    have tl: "scan_members m (?T @ CHR ''}'' # rest) = Inr (ws, rest)"
      using Cons.IH[of m] Cons.prems(1,3) len(2) ws by simp
    have "scan_members (Suc m) (member_text kv @ CHR '','' # CHR '' '' # ?T @ CHR ''}'' # rest)
        = Inr ((k, v) # ws, rest)"
      unfolding mt using c(2) key first sk tl
      by (simp add: skip_ws_Cons skip_ws_space is_ws_def)
    then show ?thesis using n kv unfolding jl by simp
  qed
qed

lemma dumps_PDict: "dumps (PDict kvs) = CHR ''{'' # join '', '' (map member_text kvs) @ ''}''"
proof -
  have "member_text = (\<lambda>kv. encode_basestring_ascii (fst kv) @ '': '' @ dumps (snd kv))"
    by (rule ext) (simp add: member_text_def)
  then show ?thesis by simp
qed

lemma scan_once_encoded:
  "is_json v \<Longrightarrow> length (dumps v) < n \<Longrightarrow> delim rest \<Longrightarrow>
   scan_once n (dumps v @ rest) = Inr (v, rest)"
proof (induction v arbitrary: n rest)
  case PNone
  then obtain m where "n = Suc m" by (cases n) auto
  then show ?case by simp
next
  case (PBool b)
  then obtain m where "n = Suc m" by (cases n) auto
  then show ?case by simp
next
  case (PInt i)
  then obtain m where "n = Suc m" by (cases n) auto
  then show ?case using PInt.prems(3) by (simp add: scan_once_int del: scan_once.simps)
next
  case (PFloat r)
  then obtain m where "n = Suc m" by (cases n) auto
  then show ?case using PFloat.prems by (simp add: scan_once_float del: scan_once.simps)
next
  case (PStr s)
  then obtain m where "n = Suc m" by (cases n) auto
  then show ?case by (simp add: encode_basestring_ascii_def scanstring_encoded)
next
  case (PList vs)
  then obtain m where n: "n = Suc m" by (cases n) auto
  show ?case
  proof (cases vs)
    case Nil
    then show ?thesis using n by (simp add: skip_ws_Cons is_ws_def)
  next
    case (Cons w ws)
    let ?T = "join '', '' (map dumps vs)"
    have "is_json w" using PList.prems(1) Cons by simp
    then obtain c cs where c: "dumps w = c # cs" "\<not> is_ws c" "c \<noteq> CHR '']''"
      using dumps_hd by blast
    then obtain ts where T: "?T = c # ts" using Cons by (simp add: join_Cons)
    have IH: "\<And>v n rest. v \<in> set vs \<Longrightarrow> length (dumps v) < n \<Longrightarrow> delim rest \<Longrightarrow>
             scan_once n (dumps v @ rest) = Inr (v, rest)"
    proof -
      fix v n rest
      assume a: "v \<in> set vs" "length (dumps v) < n" "delim rest"
      have "is_json v" using PList.prems(1) a(1) by (simp add: list_all_iff)
      then show "scan_once n (dumps v @ rest) = Inr (v, rest)"
        using PList.IH[of v n rest] a by simp
    qed
    have vj: "list_all is_json vs" "vs \<noteq> []" using PList.prems(1) Cons by simp_all
    have "length ?T + 1 < m" using PList.prems(2) n by simp
    then have "scan_items m (?T @ CHR '']'' # rest) = Inr (vs, rest)"
      using IH vj by (intro scan_items_encoded)
    then have "scan_items m (c # ts @ CHR '']'' # rest) = Inr (vs, rest)"
      using T by simp
    then have "scan_once (Suc m) (CHR ''['' # c # ts @ CHR '']'' # rest) = Inr (PList vs, rest)"
      using c(2,3) by (simp add: skip_ws_Cons)
    then show ?thesis using n T by simp
  qed
next
  case (PTuple vs)
  then show ?case by simp
next
  case (PDict kvs)
  then obtain m where n: "n = Suc m" by (cases n) auto
  have d: "distinct (map fst kvs)" and j: "list_all (\<lambda>kv. is_json (snd kv)) kvs"
    using PDict.prems(1) by simp_all
  show ?case
  proof (cases kvs)
    case Nil
    then show ?thesis using n by (simp add: skip_ws_Cons is_ws_def)
  next
    case (Cons kv ws)
    let ?T = "join '', '' (map member_text kvs)"
    obtain ts where T: "?T = dquote # ts"
      using Cons by (simp add: join_Cons member_text_def encode_basestring_ascii_def)
    have IH: "\<And>kv n rest. kv \<in> set kvs \<Longrightarrow> length (dumps (snd kv)) < n \<Longrightarrow> delim rest \<Longrightarrow>
             scan_once n (dumps (snd kv) @ rest) = Inr (snd kv, rest)"
    proof -
      fix kv n rest
      assume a: "kv \<in> set kvs" "length (dumps (snd kv)) < n" "delim rest"
      have "snd kv \<in> Basic_BNFs.snds kv" by (cases kv) simp
      moreover have "is_json (snd kv)" using j a(1) by (simp add: list_all_iff)
      ultimately show "scan_once n (dumps (snd kv) @ rest) = Inr (snd kv, rest)"
        using PDict.IH[of kv "snd kv" n rest] a by simp
    qed
    have "length ?T + 1 < m" using PDict.prems(2) n by (simp add: dumps_PDict del: dumps.simps)
    moreover have "kvs \<noteq> []" using Cons by simp
    ultimately have "scan_members m (?T @ CHR ''}'' # rest) = Inr (kvs, rest)"
      using IH j by (intro scan_members_encoded)
    then have "scan_members m (dquote # ts @ CHR ''}'' # rest) = Inr (kvs, rest)"
      using T by simp
    then have "scan_once (Suc m) (CHR ''{'' # dquote # ts @ CHR ''}'' # rest)
        = Inr (PDict kvs, rest)"
      using d by (simp add: skip_ws_Cons is_ws_def dict_of_pairs_distinct)
    then show ?thesis using n T by (simp add: dumps_PDict del: dumps.simps)
  qed
qed

lemma loads_dumps: "is_json v \<Longrightarrow> loads (dumps v) = Inr v"
proof -
  assume j: "is_json v"
  then obtain c cs where c: "dumps v = c # cs" "\<not> is_ws c" using dumps_hd by blast
  have "scan_once (2 * length (dumps v) + 2) (dumps v @ []) = Inr (v, [])"
    using j by (intro scan_once_encoded) (simp_all add: delim_simps)
  then show ?thesis
    using c by (simp add: loads_def skip_ws_Cons skip_ws_Nil del: scan_once.simps)
qed

lemma deserialize_serialize:
  "is_json (PDict a) \<Longrightarrow> deserialize (serialize a) (self, w) = (Inr (), (a, w))"
  by (simp add: deserialize_def serialize_def loads_dumps del: is_json.simps dumps.simps)

section \<open>The decoder\<close>

text \<open>
  Three facts about \<^verbatim>\<open>json.loads\<close> as modelled: a successful scan consumes text, the
  fuel that \<open>loads\<close> gives is always enough, and every value it returns is a JSON value.
\<close>

subsection \<open>Progress\<close>

lemma scanstring_Cons_Inr:
  assumes "scanstring (c # cs) = Inr (str, r)"
  shows "(c = dquote \<and> r = cs)
     \<or> (\<exists>t str'. scanstring t = Inr (str', r) \<and> length t \<le> length cs)"
proof (cases "c = dquote")
  case True
  with assms show ?thesis by simp
next
  case nq: False
  show ?thesis
  proof (cases "c = backslash")
    case False
    with nq assms have "\<exists>str'. scanstring cs = Inr (str', r)"
      by (auto split: if_splits sum.splits)
    then show ?thesis by auto
  next
    case True
    with nq assms obtain e es where cs: "cs = e # es"
      by (cases cs) auto
    show ?thesis
    proof (cases "e = CHR ''u''")
      case True
      with \<open>c = backslash\<close> nq cs assms obtain str' where "scanstring (drop 4 es) = Inr (str', r)"
        by (auto split: if_splits sum.splits option.splits)
      then show ?thesis using cs by (intro disjI2 exI[of _ "drop 4 es"] exI[of _ str']) simp
    next
      case False
      with \<open>c = backslash\<close> nq cs assms obtain str' where "scanstring es = Inr (str', r)"
        by (auto split: if_splits sum.splits option.splits)
      then show ?thesis using cs by (intro disjI2 exI[of _ es] exI[of _ str']) simp
    qed
  qed
qed

lemma scanstring_progress: "scanstring s = Inr (str, r) \<Longrightarrow> length r < length s"
proof (induction "length s" arbitrary: s str rule: less_induct)
  case less
  show ?case
  proof (cases s)
    case Nil
    with less.prems show ?thesis by simp
  next
    case (Cons c cs)
    from scanstring_Cons_Inr[OF less.prems[unfolded Cons]]
    show ?thesis
    proof
      assume "c = dquote \<and> r = cs"
      then show ?thesis using Cons by simp
    next
      assume "\<exists>t str'. scanstring t = Inr (str', r) \<and> length t \<le> length cs"
      then obtain t str' where t: "scanstring t = Inr (str', r)" "length t \<le> length cs" by blast
      then have "length t < length s" using Cons by simp
      from less.hyps[OF this t(1)] t(2) Cons show ?thesis by simp
    qed
  qed
qed

lemma scanstring_Cons_Inl:
  assumes "scanstring (c # cs) = Inl e"
  shows "e = JSONDecodeError \<or> e = Unmodelled
     \<or> (\<exists>t. scanstring t = Inl e \<and> length t \<le> length cs)"
proof (cases "c = dquote")
  case True
  with assms show ?thesis by simp
next
  case nq: False
  show ?thesis
  proof (cases "c = backslash")
    case False
    with nq assms have "e = JSONDecodeError \<or> scanstring cs = Inl e"
      by (auto split: if_splits sum.splits)
    then show ?thesis by auto
  next
    case True
    show ?thesis
    proof (cases cs)
      case Nil
      with True nq assms show ?thesis by simp
    next
      case cs: (Cons e' es)
      show ?thesis
      proof (cases "e' = CHR ''u''")
        case True
        with \<open>c = backslash\<close> nq cs assms
        have "e = JSONDecodeError \<or> e = Unmodelled \<or> scanstring (drop 4 es) = Inl e"
          by (auto split: if_splits sum.splits option.splits)
        then show ?thesis using cs by (auto intro!: exI[of _ "drop 4 es"])
      next
        case False
        with \<open>c = backslash\<close> nq cs assms have "e = JSONDecodeError \<or> scanstring es = Inl e"
          by (auto split: if_splits sum.splits option.splits)
        then show ?thesis using cs by (auto intro!: exI[of _ es])
      qed
    qed
  qed
qed

lemma scanstring_errors: "scanstring s = Inl e \<Longrightarrow> e = JSONDecodeError \<or> e = Unmodelled"
proof (induction "length s" arbitrary: s rule: less_induct)
  case less
  show ?case
  proof (cases s)
    case Nil
    with less.prems show ?thesis by simp
  next
    case (Cons c cs)
    from scanstring_Cons_Inl[OF less.prems[unfolded Cons]]
    consider "e = JSONDecodeError \<or> e = Unmodelled"
      | t where "scanstring t = Inl e" "length t \<le> length cs" by blast
    then show ?thesis
    proof cases
      case 1
      then show ?thesis .
    next
      case 2
      then have "length t < length s" using Cons by simp
      from less.hyps[OF this 2(1)] show ?thesis .
    qed
  qed
qed

lemma skip_ws_length: "length (skip_ws s) \<le> length s"
  by (simp add: skip_ws_def length_dropWhile_le)

lemma match_integer_nonempty: "match_integer s = Some (i, t) \<Longrightarrow> i \<noteq> []"
  by (cases "drop (length (takeWhile (\<lambda>c. c = CHR ''-'') (take 1 s))) s")
    (auto simp: match_integer_def Let_def split: if_splits)

lemma match_number_progress:
  assumes "match_number s = Some (i, f, x, r)"
  shows "length r < length s"
proof -
  have "i \<noteq> []" using assms match_integer_nonempty
    by (auto simp: match_number_def split: option.splits prod.splits)
  then show ?thesis using match_number_text[OF assms] by simp
qed

lemma skip_ws_Cons_length: "skip_ws s = d # ds \<Longrightarrow> length ds < length s"
  using skip_ws_length[of s] by simp

lemma scan_once_step_progress:
  assumes items: "\<And>s vs r. scan_items n s = Inr (vs, r) \<Longrightarrow> length r < length s"
    and members: "\<And>s kvs r. scan_members n s = Inr (kvs, r) \<Longrightarrow> length r < length s"
    and ok: "scan_once (Suc n) s = Inr (v, r)"
  shows "length r < length s"
proof (cases s)
  case Nil
  with ok show ?thesis by simp
next
  case (Cons c cs)
  consider (str) "c = dquote" | (obj) "c = CHR ''{''" | (arr) "c = CHR ''[''"
    | (other) "c \<noteq> dquote" "c \<noteq> CHR ''{''" "c \<noteq> CHR ''[''" by blast
  then show ?thesis
  proof cases
    case str
    with ok Cons obtain x where "scanstring cs = Inr (x, r)"
      by (auto split: sum.splits)
    from scanstring_progress[OF this] Cons show ?thesis by simp
  next
    case obj
    with ok Cons obtain d ds where d: "skip_ws cs = d # ds"
      by (cases "skip_ws cs") auto
    note l = skip_ws_Cons_length[OF d]
    show ?thesis
    proof (cases "d = CHR ''}''")
      case True
      with ok Cons obj d l show ?thesis by simp
    next
      case False
      with ok Cons obj d obtain kvs where "scan_members n (d # ds) = Inr (kvs, r)"
        by (auto split: sum.splits)
      from members[OF this] l Cons show ?thesis by simp
    qed
  next
    case arr
    with ok Cons obtain d ds where d: "skip_ws cs = d # ds"
      by (cases "skip_ws cs") auto
    note l = skip_ws_Cons_length[OF d]
    show ?thesis
    proof (cases "d = CHR '']''")
      case True
      with ok Cons arr d l show ?thesis by simp
    next
      case False
      with ok Cons arr d obtain vs where "scan_items n (d # ds) = Inr (vs, r)"
        by (auto split: sum.splits)
      from items[OF this] l Cons show ?thesis by simp
    qed
  next
    case other
    with ok Cons have "(\<exists>k. 0 < k \<and> r = drop k s)
        \<or> (\<exists>i f x. match_number s = Some (i, f, x, r))"
      by (auto split: if_splits option.splits prod.splits)
    then show ?thesis using Cons by (auto dest: match_number_progress)
  qed
qed

lemma scan_items_step_progress:
  assumes once: "\<And>s v r. scan_once n s = Inr (v, r) \<Longrightarrow> length r < length s"
    and items: "\<And>s vs r. scan_items n s = Inr (vs, r) \<Longrightarrow> length r < length s"
    and ok: "scan_items (Suc n) s = Inr (vs, r)"
  shows "length r < length s"
proof -
  from ok obtain v r1 where v: "scan_once n s = Inr (v, r1)"
    by (auto split: sum.splits)
  note l1 = once[OF v]
  from ok v obtain c r2 where c: "skip_ws r1 = c # r2"
    by (cases "skip_ws r1") auto
  note l2 = skip_ws_Cons_length[OF c]
  show ?thesis
  proof (cases "c = CHR '']''")
    case True
    with ok v c l1 l2 show ?thesis by simp
  next
    case False
    with ok v c obtain ws where "scan_items n (skip_ws r2) = Inr (ws, r)"
      by (auto split: sum.splits if_splits)
    from items[OF this] skip_ws_length[of r2] l1 l2 show ?thesis by simp
  qed
qed

lemma scan_members_step_progress:
  assumes once: "\<And>s v r. scan_once n s = Inr (v, r) \<Longrightarrow> length r < length s"
    and members: "\<And>s kvs r. scan_members n s = Inr (kvs, r) \<Longrightarrow> length r < length s"
    and ok: "scan_members (Suc n) s = Inr (kvs, r)"
  shows "length r < length s"
proof (cases s)
  case Nil
  with ok show ?thesis by simp
next
  case (Cons q cs)
  with ok have q: "q = dquote" by (auto split: if_splits)
  with ok Cons obtain key r0 where k: "scanstring cs = Inr (key, r0)"
    by (auto split: sum.splits)
  note l0 = scanstring_progress[OF k]
  from ok Cons q k obtain c r1 where c: "skip_ws r0 = c # r1"
    by (cases "skip_ws r0") auto
  note l1 = skip_ws_Cons_length[OF c]
  from ok Cons q k c have colon: "c = CHR '':''" by (auto split: if_splits)
  with ok Cons q k c obtain v r2 where v: "scan_once n (skip_ws r1) = Inr (v, r2)"
    by (auto split: sum.splits)
  note l2 = once[OF v] skip_ws_length[of r1]
  from ok Cons q k c colon v obtain c' r3 where c': "skip_ws r2 = c' # r3"
    by (cases "skip_ws r2") auto
  note l3 = skip_ws_Cons_length[OF c']
  show ?thesis
  proof (cases "c' = CHR ''}''")
    case True
    with ok Cons q k c colon v c' l0 l1 l2 l3 show ?thesis by simp
  next
    case False
    with ok Cons q k c colon v c' obtain ws where "scan_members n (skip_ws r3) = Inr (ws, r)"
      by (auto split: sum.splits if_splits)
    from members[OF this] skip_ws_length[of r3] l0 l1 l2 l3 Cons show ?thesis by simp
  qed
qed

lemma scan_progress:
  "(\<forall>s v r. scan_once n s = Inr (v, r) \<longrightarrow> length r < length s)
   \<and> (\<forall>s vs r. scan_items n s = Inr (vs, r) \<longrightarrow> length r < length s)
   \<and> (\<forall>s kvs r. scan_members n s = Inr (kvs, r) \<longrightarrow> length r < length s)"
proof (induction n)
  case 0
  then show ?case by simp
next
  case (Suc n)
  then show ?case
    using scan_once_step_progress[of n] scan_items_step_progress[of n]
      scan_members_step_progress[of n]
    by blast
qed

lemma scan_once_progress: "scan_once n s = Inr (v, r) \<Longrightarrow> length r < length s"
  using scan_progress[of n] by blast

subsection \<open>Fuel\<close>

lemma scan_once_step_fuel:
  assumes items: "\<And>s. 2 * length s + 2 \<le> n \<Longrightarrow> scan_items n s \<noteq> Inl OutOfFuel"
    and members: "\<And>s. 2 * length s + 2 \<le> n \<Longrightarrow> scan_members n s \<noteq> Inl OutOfFuel"
    and fuel: "2 * length s + 1 \<le> Suc n"
  shows "scan_once (Suc n) s \<noteq> Inl OutOfFuel"
proof
  assume out: "scan_once (Suc n) s = Inl OutOfFuel"
  then obtain c cs where s: "s = c # cs" by (cases s) auto
  consider (str) "c = dquote" | (obj) "c = CHR ''{''" | (arr) "c = CHR ''[''"
    | (other) "c \<noteq> dquote" "c \<noteq> CHR ''{''" "c \<noteq> CHR ''[''" by blast
  then show False
  proof cases
    case str
    with out s have "scanstring cs = Inl OutOfFuel"
      by (auto split: sum.splits)
    then show False using scanstring_errors by blast
  next
    case obj
    with out s obtain d ds where d: "skip_ws cs = d # ds"
      by (cases "skip_ws cs") auto
    with out s obj have "scan_members n (d # ds) = Inl OutOfFuel"
      by (auto split: sum.splits if_splits)
    moreover have "2 * length (d # ds) + 2 \<le> n"
      using skip_ws_length[of cs] d fuel s by simp
    ultimately show False using members by blast
  next
    case arr
    with out s obtain d ds where d: "skip_ws cs = d # ds"
      by (cases "skip_ws cs") auto
    with out s arr have "scan_items n (d # ds) = Inl OutOfFuel"
      by (auto split: sum.splits if_splits)
    moreover have "2 * length (d # ds) + 2 \<le> n"
      using skip_ws_length[of cs] d fuel s by simp
    ultimately show False using items by blast
  next
    case other
    with out s show False
      by (auto split: if_splits option.splits prod.splits)
  qed
qed

lemma scan_items_step_fuel:
  assumes once: "\<And>s. 2 * length s + 1 \<le> n \<Longrightarrow> scan_once n s \<noteq> Inl OutOfFuel"
    and items: "\<And>s. 2 * length s + 2 \<le> n \<Longrightarrow> scan_items n s \<noteq> Inl OutOfFuel"
    and fuel: "2 * length s + 2 \<le> Suc n"
  shows "scan_items (Suc n) s \<noteq> Inl OutOfFuel"
proof
  assume out: "scan_items (Suc n) s = Inl OutOfFuel"
  have "scan_once n s \<noteq> Inl OutOfFuel" using once fuel by simp
  with out obtain v r1 where v: "scan_once n s = Inr (v, r1)"
    by (cases "scan_once n s") (auto split: sum.splits)
  note l1 = scan_once_progress[OF v]
  from out v obtain c r2 where c: "skip_ws r1 = c # r2"
    by (cases "skip_ws r1") auto
  note l2 = skip_ws_Cons_length[OF c]
  from out v c have "scan_items n (skip_ws r2) = Inl OutOfFuel"
    by (auto split: sum.splits if_splits)
  moreover have "2 * length (skip_ws r2) + 2 \<le> n"
    using skip_ws_length[of r2] l1 l2 fuel by simp
  ultimately show False using items by blast
qed

lemma scan_members_step_fuel:
  assumes once: "\<And>s. 2 * length s + 1 \<le> n \<Longrightarrow> scan_once n s \<noteq> Inl OutOfFuel"
    and members: "\<And>s. 2 * length s + 2 \<le> n \<Longrightarrow> scan_members n s \<noteq> Inl OutOfFuel"
    and fuel: "2 * length s + 2 \<le> Suc n"
  shows "scan_members (Suc n) s \<noteq> Inl OutOfFuel"
proof
  assume out: "scan_members (Suc n) s = Inl OutOfFuel"
  then obtain q cs where s: "s = q # cs" by (cases s) auto
  with out have q: "q = dquote" by (auto split: if_splits)
  have "scanstring cs \<noteq> Inl OutOfFuel" using scanstring_errors by blast
  with out s q obtain key r0 where k: "scanstring cs = Inr (key, r0)"
    by (cases "scanstring cs") (auto split: sum.splits)
  note l0 = scanstring_progress[OF k]
  from out s q k obtain c r1 where c: "skip_ws r0 = c # r1"
    by (cases "skip_ws r0") auto
  note l1 = skip_ws_Cons_length[OF c]
  from out s q k c have colon: "c = CHR '':''" by (auto split: if_splits)
  have "2 * length (skip_ws r1) + 1 \<le> n"
    using skip_ws_length[of r1] l0 l1 fuel s by simp
  then have "scan_once n (skip_ws r1) \<noteq> Inl OutOfFuel" using once by blast
  with out s q k c colon obtain v r2 where v: "scan_once n (skip_ws r1) = Inr (v, r2)"
    by (cases "scan_once n (skip_ws r1)") (auto split: sum.splits)
  note l2 = scan_once_progress[OF v] skip_ws_length[of r1]
  from out s q k c colon v obtain c' r3 where c': "skip_ws r2 = c' # r3"
    by (cases "skip_ws r2") auto
  note l3 = skip_ws_Cons_length[OF c']
  from out s q k c colon v c' have "scan_members n (skip_ws r3) = Inl OutOfFuel"
    by (auto split: sum.splits if_splits)
  moreover have "2 * length (skip_ws r3) + 2 \<le> n"
    using skip_ws_length[of r3] l0 l1 l2 l3 fuel s by simp
  ultimately show False using members by blast
qed

lemma scan_fuel:
  "(\<forall>s. 2 * length s + 1 \<le> n \<longrightarrow> scan_once n s \<noteq> Inl OutOfFuel)
   \<and> (\<forall>s. 2 * length s + 2 \<le> n \<longrightarrow> scan_items n s \<noteq> Inl OutOfFuel)
   \<and> (\<forall>s. 2 * length s + 2 \<le> n \<longrightarrow> scan_members n s \<noteq> Inl OutOfFuel)"
proof (induction n)
  case 0
  then show ?case by simp
next
  case (Suc n)
  then show ?case
    using scan_once_step_fuel[of n] scan_items_step_fuel[of n] scan_members_step_fuel[of n]
    by blast
qed

lemma loads_fuel: "loads s \<noteq> Inl OutOfFuel"
proof -
  have "2 * length (skip_ws s) + 1 \<le> 2 * length s + 2"
    using skip_ws_length[of s] by simp
  then have "scan_once (2 * length s + 2) (skip_ws s) \<noteq> Inl OutOfFuel"
    using scan_fuel[of "2 * length s + 2"] by blast
  then show ?thesis
    by (auto simp: loads_def split: sum.splits)
qed

subsection \<open>What the decoder returns\<close>

lemma takeWhile_digits_id:
  "t' = [] \<or> \<not> is_digit (hd t') \<Longrightarrow>
   takeWhile is_digit (takeWhile is_digit ds @ t') = takeWhile is_digit ds
   \<and> dropWhile is_digit (takeWhile is_digit ds @ t') = t'"
  by (induction ds) (auto simp: takeWhile_eq_Nil_iff dropWhile_eq_self_iff)

lemma match_integer_again:
  assumes "match_integer s = Some (i, t)" and "t' = [] \<or> \<not> is_digit (hd t')"
  shows "match_integer (i @ t') = Some (i, t')"
proof -
  let ?sign = "takeWhile (\<lambda>c. c = CHR ''-'') (take 1 s)"
  obtain c cs where r: "drop (length ?sign) s = c # cs"
    using assms(1) by (cases "drop (length ?sign) s") (auto simp: match_integer_def Let_def)
  have sg: "?sign = [] \<or> ?sign = ''-''"
    by (cases s) auto
  have d: "is_digit c" using assms(1) r
    by (auto simp: match_integer_def Let_def is_digit_def split: if_splits)
  then have nm: "c \<noteq> CHR ''-''" by (auto simp: is_digit_def)
  show ?thesis
  proof (cases "c = CHR ''0''")
    case True
    then have "i = ?sign @ ''0''" using assms(1) r by (simp add: match_integer_def Let_def)
    then show ?thesis using sg by (auto simp: match_integer_def Let_def)
  next
    case False
    then have i: "i = ?sign @ c # takeWhile is_digit cs"
      using assms(1) r d by (simp add: match_integer_def Let_def)
    show ?thesis using sg
    proof
      assume "?sign = []"
      then show ?thesis using i nm d False takeWhile_digits_id[OF assms(2), of cs]
        by (simp add: match_integer_def Let_def)
    next
      assume "?sign = ''-''"
      then show ?thesis using i nm d False takeWhile_digits_id[OF assms(2), of cs]
        by (simp add: match_integer_def Let_def)
    qed
  qed
qed

lemma match_frac_shape:
  assumes "match_frac t = (f, t1)"
  shows "f = [] \<or> (\<exists>d ds. f = CHR ''.'' # d # takeWhile is_digit ds \<and> is_digit d)"
  using assms by (auto simp: match_frac_def split: list.splits if_splits)

lemma match_frac_again:
  assumes "match_frac t = (f, t1)" and "f \<noteq> []" and "t' = [] \<or> \<not> is_digit (hd t')"
  shows "match_frac (f @ t') = (f, t')"
proof -
  from match_frac_shape[OF assms(1)] assms(2) obtain d ds where
    f: "f = CHR ''.'' # d # takeWhile is_digit ds" "is_digit d" by blast
  then show ?thesis using takeWhile_digits_id[OF assms(3), of ds]
    by (simp add: match_frac_def)
qed

lemma match_exp_shape:
  assumes "match_exp t = (x, t1)"
  shows "x = [] \<or> (\<exists>e sg d ds. x = e # sg @ d # takeWhile is_digit ds
           \<and> (e = CHR ''e'' \<or> e = CHR ''E'') \<and> (sg = [] \<or> sg = ''+'' \<or> sg = ''-'') \<and> is_digit d)"
proof (cases t)
  case Nil
  with assms show ?thesis by (simp add: match_exp_def)
next
  case (Cons e cs)
  let ?sign = "takeWhile (\<lambda>c. c = CHR ''+'' \<or> c = CHR ''-'') (take 1 cs)"
  have sg: "?sign = [] \<or> ?sign = ''+'' \<or> ?sign = ''-''"
    by (cases cs) auto
  show ?thesis
  proof (cases "x = []")
    case True
    then show ?thesis by simp
  next
    case False
    with assms Cons have e: "e = CHR ''e'' \<or> e = CHR ''E''"
      by (auto simp: match_exp_def split: if_splits)
    with assms Cons False obtain d ds where r: "drop (length ?sign) cs = d # ds"
      by (cases "drop (length ?sign) cs") (auto simp: match_exp_def Let_def)
    with assms Cons False e have "is_digit d" "x = e # ?sign @ d # takeWhile is_digit ds"
      by (auto simp: match_exp_def Let_def split: if_splits)
    with e sg show ?thesis by blast
  qed
qed

lemma match_exp_again:
  assumes "match_exp t = (x, t1)"
  shows "match_exp x = (x, [])"
proof -
  from match_exp_shape[OF assms] consider "x = []"
    | e sg d ds where "x = e # sg @ d # takeWhile is_digit ds" "e = CHR ''e'' \<or> e = CHR ''E''"
        "sg = [] \<or> sg = ''+'' \<or> sg = ''-''" "is_digit d"
    by blast
  then show ?thesis
  proof cases
    case 1
    then show ?thesis by (simp add: match_exp_def)
  next
    case 2
    have nd: "d \<noteq> CHR ''+''" "d \<noteq> CHR ''-''" using 2(4) by (auto simp: is_digit_def)
    have tw: "takeWhile is_digit (takeWhile is_digit ds) = takeWhile is_digit ds"
      "dropWhile is_digit (takeWhile is_digit ds) = []"
      using takeWhile_digits_id[of "[]" ds] by simp_all
    from 2(3) show ?thesis
    proof (elim disjE)
      assume "sg = []"
      then show ?thesis using 2(1,2,4) nd tw by (auto simp: match_exp_def Let_def)
    next
      assume "sg = ''+''"
      then show ?thesis using 2(1,2,4) nd tw by (auto simp: match_exp_def Let_def)
    next
      assume "sg = ''-''"
      then show ?thesis using 2(1,2,4) nd tw by (auto simp: match_exp_def Let_def)
    qed
  qed
qed

lemma not_digit: "\<not> is_digit CHR ''.''" "\<not> is_digit CHR ''e''" "\<not> is_digit CHR ''E''"
  by (simp_all add: is_digit_def)

lemma match_frac_hd: "match_frac t = (f, t1) \<Longrightarrow> f \<noteq> [] \<Longrightarrow> hd f = CHR ''.''"
  using match_frac_shape[of t f t1] by auto

lemma match_exp_hd:
  "match_exp t = (x, t1) \<Longrightarrow> x \<noteq> [] \<Longrightarrow> hd x = CHR ''e'' \<or> hd x = CHR ''E''"
  using match_exp_shape[of t x t1] by auto

lemma frac_exp_start:
  assumes "match_frac t = (f, t1)" and "match_exp t1 = (x, r)"
  shows "x = [] \<or> \<not> is_digit (hd x)" and "x = [] \<or> hd x \<noteq> CHR ''.''"
    and "f @ x = [] \<or> \<not> is_digit (hd (f @ x))"
proof -
  show x: "x = [] \<or> \<not> is_digit (hd x)"
    using match_exp_hd[OF assms(2)] not_digit by (cases "x = []") auto
  show "x = [] \<or> hd x \<noteq> CHR ''.''"
    using match_exp_hd[OF assms(2)] by (cases "x = []") auto
  show "f @ x = [] \<or> \<not> is_digit (hd (f @ x))"
  proof (cases "f = []")
    case True
    then show ?thesis using x by simp
  next
    case False
    then show ?thesis using match_frac_hd[OF assms(1)] not_digit by simp
  qed
qed

lemma match_number_float_text:
  assumes "match_number s = Some (i, f, x, r)" and "f \<noteq> [] \<or> x \<noteq> []"
  shows "is_float_text (i @ f @ x)"
proof -
  from assms(1) obtain t t1 where
    m: "match_integer s = Some (i, t)" "match_frac t = (f, t1)" "match_exp t1 = (x, r)"
    by (auto simp: match_number_def split: option.splits prod.splits)
  note xs = frac_exp_start(1,2)[OF m(2,3)] and fs = frac_exp_start(3)[OF m(2,3)]
  have 1: "match_integer (i @ f @ x) = Some (i, f @ x)"
    using match_integer_again[OF m(1) fs] by simp
  have 2: "match_frac (f @ x) = (f, x)"
  proof (cases "f = []")
    case True
    then show ?thesis using xs(2)
      by (cases x) (auto simp: match_frac_def split: list.splits)
  next
    case False
    then show ?thesis using match_frac_again[OF m(2) _ xs(1)] by simp
  qed
  have 3: "match_exp x = (x, [])" by (rule match_exp_again[OF m(3)])
  have "match_number (i @ f @ x) = Some (i, f, x, [])"
    by (simp add: match_number_def 1 2 3)
  then show ?thesis using assms(2) by (simp add: is_float_text_def)
qed

lemma dict_set_keys: "fst ` set (dict_set d k v) = insert k (fst ` set d)"
  by (induction d) auto

lemma dict_set_distinct: "distinct (map fst d) \<Longrightarrow> distinct (map fst (dict_set d k v))"
proof (induction d)
  case Nil
  then show ?case by simp
next
  case (Cons p d)
  then show ?case using dict_set_keys[of d k v] by (auto simp: image_iff)
qed

lemma dict_set_mem: "p \<in> set (dict_set d k v) \<Longrightarrow> p = (k, v) \<or> p \<in> set d"
  by (induction d) (auto split: if_splits)

lemma dict_fold_json:
  "distinct (map fst acc) \<Longrightarrow> list_all (\<lambda>kv. is_json (snd kv)) acc \<Longrightarrow>
   list_all (\<lambda>kv. is_json (snd kv)) kvs \<Longrightarrow>
   is_json (PDict (foldl (\<lambda>d kv. dict_set d (fst kv) (snd kv)) acc kvs))"
proof (induction kvs arbitrary: acc)
  case Nil
  then show ?case by simp
next
  case (Cons kv kvs)
  have "list_all (\<lambda>kv. is_json (snd kv)) (dict_set acc (fst kv) (snd kv))"
    using Cons.prems(2,3)
    by (auto simp: list_all_iff dest!: dict_set_mem)
  then show ?case using Cons dict_set_distinct[of acc] by simp
qed

lemma dict_of_pairs_json:
  "list_all (\<lambda>kv. is_json (snd kv)) kvs \<Longrightarrow> is_json (PDict (dict_of_pairs kvs))"
  using dict_fold_json[of "[]" kvs] by (simp add: dict_of_pairs_def)

lemma scan_once_step_json:
  assumes items: "\<And>s vs r. scan_items n s = Inr (vs, r) \<Longrightarrow> list_all is_json vs"
    and members: "\<And>s kvs r. scan_members n s = Inr (kvs, r) \<Longrightarrow>
                    list_all (\<lambda>kv. is_json (snd kv)) kvs"
    and ok: "scan_once (Suc n) s = Inr (v, r)"
  shows "is_json v"
proof -
  from ok obtain c cs where s: "s = c # cs" by (cases s) auto
  consider (str) "c = dquote" | (obj) "c = CHR ''{''" | (arr) "c = CHR ''[''"
    | (other) "c \<noteq> dquote" "c \<noteq> CHR ''{''" "c \<noteq> CHR ''[''" by blast
  then show ?thesis
  proof cases
    case str
    with ok s show ?thesis by (auto split: sum.splits)
  next
    case obj
    with ok s obtain d ds where d: "skip_ws cs = d # ds"
      by (cases "skip_ws cs") auto
    show ?thesis
    proof (cases "d = CHR ''}''")
      case True
      with ok s obj d show ?thesis by auto
    next
      case False
      with ok s obj d obtain kvs where k: "scan_members n (d # ds) = Inr (kvs, r)"
        "v = PDict (dict_of_pairs kvs)"
        by (auto split: sum.splits)
      from members[OF k(1)] k(2) show ?thesis
        using dict_of_pairs_json by blast
    qed
  next
    case arr
    with ok s obtain d ds where d: "skip_ws cs = d # ds"
      by (cases "skip_ws cs") auto
    show ?thesis
    proof (cases "d = CHR '']''")
      case True
      with ok s arr d show ?thesis by auto
    next
      case False
      with ok s arr d obtain vs where k: "scan_items n (d # ds) = Inr (vs, r)" "v = PList vs"
        by (auto split: sum.splits)
      from items[OF k(1)] k(2) show ?thesis by simp
    qed
  next
    case other
    with ok s have "v = PNone \<or> (\<exists>b. v = PBool b) \<or> (\<exists>i. v = PInt i)
        \<or> v = PFloat ''NaN'' \<or> v = PFloat ''Infinity'' \<or> v = PFloat ''-Infinity''
        \<or> (\<exists>i f x r'. match_number s = Some (i, f, x, r') \<and> (f \<noteq> [] \<or> x \<noteq> [])
              \<and> v = PFloat (i @ f @ x))"
      by (auto split: if_splits option.splits prod.splits)
    then show ?thesis
      by (auto simp: is_float_text_def dest: match_number_float_text)
  qed
qed

lemma scan_items_step_json:
  assumes once: "\<And>s v r. scan_once n s = Inr (v, r) \<Longrightarrow> is_json v"
    and items: "\<And>s vs r. scan_items n s = Inr (vs, r) \<Longrightarrow> list_all is_json vs"
    and ok: "scan_items (Suc n) s = Inr (vs, r)"
  shows "list_all is_json vs"
proof -
  from ok obtain v r1 where v: "scan_once n s = Inr (v, r1)"
    by (auto split: sum.splits)
  note j = once[OF v]
  from ok v obtain c r2 where c: "skip_ws r1 = c # r2"
    by (cases "skip_ws r1") auto
  show ?thesis
  proof (cases "c = CHR '']''")
    case True
    with ok v c j show ?thesis by auto
  next
    case False
    with ok v c obtain ws where w: "scan_items n (skip_ws r2) = Inr (ws, r)" "vs = v # ws"
      by (auto split: sum.splits if_splits)
    from items[OF w(1)] w(2) j show ?thesis by simp
  qed
qed

lemma scan_members_step_json:
  assumes once: "\<And>s v r. scan_once n s = Inr (v, r) \<Longrightarrow> is_json v"
    and members: "\<And>s kvs r. scan_members n s = Inr (kvs, r) \<Longrightarrow>
                    list_all (\<lambda>kv. is_json (snd kv)) kvs"
    and ok: "scan_members (Suc n) s = Inr (kvs, r)"
  shows "list_all (\<lambda>kv. is_json (snd kv)) kvs"
proof -
  from ok obtain q cs where s: "s = q # cs" by (cases s) auto
  with ok have q: "q = dquote" by (auto split: if_splits)
  with ok s obtain key r0 where k: "scanstring cs = Inr (key, r0)"
    by (auto split: sum.splits)
  from ok s q k obtain c r1 where c: "skip_ws r0 = c # r1"
    by (cases "skip_ws r0") auto
  from ok s q k c have colon: "c = CHR '':''" by (auto split: if_splits)
  with ok s q k c obtain v r2 where v: "scan_once n (skip_ws r1) = Inr (v, r2)"
    by (auto split: sum.splits)
  note j = once[OF v]
  from ok s q k c colon v obtain c' r3 where c': "skip_ws r2 = c' # r3"
    by (cases "skip_ws r2") auto
  show ?thesis
  proof (cases "c' = CHR ''}''")
    case True
    with ok s q k c colon v c' j show ?thesis by auto
  next
    case False
    with ok s q k c colon v c' obtain ws where
      w: "scan_members n (skip_ws r3) = Inr (ws, r)" "kvs = (key, v) # ws"
      by (auto split: sum.splits if_splits)
    from members[OF w(1)] w(2) j show ?thesis by simp
  qed
qed

lemma scan_json:
  "(\<forall>s v r. scan_once n s = Inr (v, r) \<longrightarrow> is_json v)
   \<and> (\<forall>s vs r. scan_items n s = Inr (vs, r) \<longrightarrow> list_all is_json vs)
   \<and> (\<forall>s kvs r. scan_members n s = Inr (kvs, r) \<longrightarrow> list_all (\<lambda>kv. is_json (snd kv)) kvs)"
proof (induction n)
  case 0
  then show ?case by simp
next
  case (Suc n)
  then show ?case
    using scan_once_step_json[of n] scan_items_step_json[of n] scan_members_step_json[of n]
    by blast
qed

lemma scan_once_json: "scan_once n s = Inr (v, r) \<Longrightarrow> is_json v"
  using scan_json[of n] by blast

lemma loads_is_json:
  assumes "loads s = Inr v"
  shows "is_json v"
proof -
  from assms obtain r where "scan_once (2 * length s + 2) (skip_ws s) = Inr (v, r)"
    unfolding loads_def by (cases "scan_once (2 * length s + 2) (skip_ws s)") (auto split: if_splits)
  then show ?thesis by (rule scan_once_json)
qed

section \<open>Deserialization\<close>











subsection \<open>Serialized addresses\<close>

lemma seq_index_set: "seq_index xs i = Inr x \<Longrightarrow> x \<in> set xs"
  by (auto simp: seq_index_def split: if_splits)

lemma is_json_getitem_key: "is_json v \<Longrightarrow> getitem_key v k = Inr x \<Longrightarrow> is_json x"
  by (cases v) (auto simp: list_all_iff split: option.splits dest!: map_of_SomeD)

lemma is_json_getitem_idx: "is_json v \<Longrightarrow> getitem_idx v i = Inr x \<Longrightarrow> is_json x"
  by (cases v) (auto simp: list_all_iff split: sum.splits dest: seq_index_set)

lemma bind_Inr: "bind r g = Inr y \<longleftrightarrow> (\<exists>x. r = Inr x \<and> g x = Inr y)"
  by (cases r) (simp_all add: bind_def)

lemma coordinates_json:
  assumes "server w (geocoding_url f w) = Inr r" and "json r = Inr payload"
    and "is_json payload" and "fst (get_coordinates f w) = Inr c"
  shows "\<exists>lat lon. c = PTuple [lat, lon] \<and> is_json lat \<and> is_json lon"
proof -
  have s: "status_code r = 200"
    using assms(1,4) by (auto simp: get_coordinates_def requests_get_def split: if_splits)
  have "bind (getitem_key payload ''features'') (\<lambda>features.
     bind (getitem_idx features 0) (\<lambda>feature.
     bind (getitem_key feature ''center'') (\<lambda>coordinates.
     bind (getitem_idx coordinates 1) (\<lambda>c1.
     bind (getitem_idx coordinates 0) (\<lambda>c0.
       Inr (PTuple [c1, c0])))))) = Inr c"
    using get_coordinates_ok[OF assms(1) s assms(2)] assms(4) by simp
  then obtain features feature center c1 c0 where
    g: "getitem_key payload ''features'' = Inr features"
       "getitem_idx features 0 = Inr feature"
       "getitem_key feature ''center'' = Inr center"
       "getitem_idx center 1 = Inr c1" "getitem_idx center 0 = Inr c0"
       "c = PTuple [c1, c0]"
    by (auto simp: bind_Inr)
  have "is_json features" using is_json_getitem_key[OF assms(3) g(1)] .
  then have "is_json feature" using is_json_getitem_idx g(2) by blast
  then have "is_json center" using is_json_getitem_key g(3) by blast
  then have "is_json c1" "is_json c0" using is_json_getitem_idx g(4,5) by blast+
  with g(6) show ?thesis by blast
qed

lemma is_json_py: "is_json (py_str v)" "is_json (py_int z)"
  by (cases v; simp add: py_str_def) (cases z; simp add: py_int_def)

lemma is_json_constructed:
  "is_json lat \<Longrightarrow> is_json lon \<Longrightarrow>
   is_json (PDict (init_dict f @ [(''coordinates'', PList [lat, lon])]))"
  by (simp add: init_dict_def is_json_py)

lemma serialize_tuple:
  "serialize (d @ [(k, PTuple vs)]) = serialize (d @ [(k, PList vs)])"
  by (simp add: serialize_def)

lemma deserialize_constructed:
  assumes "is_json lat" and "is_json lon"
  shows "deserialize (serialize (init_dict f @ [(''coordinates'', PTuple [lat, lon])])) (self, w)
     = (Inr (), (init_dict f @ [(''coordinates'', PList [lat, lon])], w))"
  unfolding serialize_tuple
  by (rule deserialize_serialize) (rule is_json_constructed [OF assms])

lemma map_of_fields:
  "k \<noteq> ''coordinates'' \<Longrightarrow> map_of (init_dict f @ [(''coordinates'', x)]) k = map_of (init_dict f) k"
  by (simp add: init_dict_def)

lemma map_of_coordinates: "map_of (init_dict f @ [(''coordinates'', x)]) ''coordinates'' = Some x"
  by (simp add: init_dict_def)

text \<open>
  C1, as stated, fails on the coordinates: construction stores the tuple
  \<^verbatim>\<open>(40.7, -74.0)\<close>, \<^verbatim>\<open>json.dumps\<close> writes it as an array, and after \<^verbatim>\<open>deserialize\<close>
  the field holds the list \<^verbatim>\<open>[40.7, -74.0]\<close>, which is not equal to the tuple.
\<close>

theorem round_trip_coordinates_counterexample:
  "fst (Address troy (answering troy_response)) = Inr troy_address
   \<and> map_of troy_address ''coordinates'' = Some (PTuple [PFloat ''40.7'', PFloat ''-74.0''])
   \<and> fst (deserialize (serialize troy_address) (troy_address, answering troy_response)) = Inr ()
   \<and> map_of (fst (snd (deserialize (serialize troy_address)
                          (troy_address, answering troy_response)))) ''coordinates''
       = Some (PList [PFloat ''40.7'', PFloat ''-74.0''])
   \<and> PList [PFloat ''40.7'', PFloat ''-74.0''] \<noteq> PTuple [PFloat ''40.7'', PFloat ''-74.0'']"
proof -
  have j: "is_json (PFloat ''40.7'')" "is_json (PFloat ''-74.0'')"
    by (simp_all add: is_float_text_def match_number_def match_integer_def match_frac_def
        match_exp_def is_digit_def)
  have t: "troy_address = init_dict troy @ [(''coordinates'', PTuple [PFloat ''40.7'', PFloat ''-74.0''])]"
    by (simp add: troy_address_def init_dict_troy)
  have "deserialize (serialize troy_address) (troy_address, answering troy_response)
      = (Inr (), (init_dict troy @ [(''coordinates'', PList [PFloat ''40.7'', PFloat ''-74.0''])],
                  answering troy_response))"
    unfolding t by (rule deserialize_constructed [OF j])
  moreover have "fst (Address troy (answering troy_response)) = Inr troy_address"
    by (simp add: Address_troy troy_address_def)
  ultimately show ?thesis
    by (simp add: init_dict_troy) (simp add: troy_address_def)
qed

text \<open>
  C1, amended. Let \<open>a\<close> be a constructed address, the payload of the geocoding response
  being a JSON value. Then \<^verbatim>\<open>deserialize(serialize(a))\<close> raises nothing on any target and
  leaves an instance with the same attributes in the same order, where every attribute
  other than \<^verbatim>\<open>coordinates\<close> has the value it has in \<open>a\<close>, and \<^verbatim>\<open>coordinates\<close> is the
  list of the two elements of the tuple that \<open>a\<close> holds.
\<close>

theorem serialize_round_trip:
  assumes "Address f w = (Inr a, w')"
    and "server w (geocoding_url f w) = Inr r" and "json r = Inr payload" and "is_json payload"
  shows "\<exists>lat lon a'.
           map_of a ''coordinates'' = Some (PTuple [lat, lon])
           \<and> deserialize (serialize a) (self, w0) = (Inr (), (a', w0))
           \<and> map_of a' ''coordinates'' = Some (PList [lat, lon])
           \<and> (\<forall>k. k \<noteq> ''coordinates'' \<longrightarrow> map_of a' k = map_of a k)
           \<and> map fst a' = map fst a"
proof -
  from assms(1) obtain c where
    c: "get_coordinates f w = (Inr c, w')" "a = init_dict f @ [(''coordinates'', c)]"
    by (auto simp: Address_Inr)
  then have "fst (get_coordinates f w) = Inr c" by simp
  from coordinates_json[OF assms(2-4) this] obtain lat lon where
    l: "c = PTuple [lat, lon]" "is_json lat" "is_json lon" by blast
  let ?a' = "init_dict f @ [(''coordinates'', PList [lat, lon])]"
  have "deserialize (serialize a) (self, w0) = (Inr (), (?a', w0))"
    using deserialize_constructed[OF l(2,3)] c(2) l(1) by simp
  moreover have "map_of a ''coordinates'' = Some (PTuple [lat, lon])"
    using c(2) l(1) map_of_coordinates[of f c] by simp
  moreover have "map_of ?a' ''coordinates'' = Some (PList [lat, lon])"
    by (rule map_of_coordinates)
  moreover have "\<forall>k. k \<noteq> ''coordinates'' \<longrightarrow> map_of ?a' k = map_of a k"
    using c(2) map_of_fields[of _ f] by simp
  moreover have "map fst ?a' = map fst a" using c(2) by simp
  ultimately show ?thesis by blast
qed

theorem serialize_round_trip_witness:
  "\<exists>a'. deserialize (serialize troy_address) (blank, answering troy_response)
          = (Inr (), (a', answering troy_response))
        \<and> map_of a' ''coordinates'' = Some (PList [PFloat ''40.7'', PFloat ''-74.0''])
        \<and> map_of a' ''street1'' = Some (PStr ''123 Main St'')
        \<and> map_of a' ''street2'' = Some PNone
        \<and> map_of a' ''city'' = Some (PStr ''Troy'')
        \<and> map_of a' ''state'' = Some (PStr ''NY'')
        \<and> map_of a' ''zip'' = Some (PInt 12180)"
proof -
  have j: "is_json (center_payload (PList [PFloat ''-74.0'', PFloat ''40.7'']))"
    by (simp add: center_payload_def is_float_text_def match_number_def match_integer_def
        match_frac_def match_exp_def is_digit_def)
  have A: "Address troy (answering troy_response)
      = (Inr troy_address, snd (Address troy (answering troy_response)))"
    using Address_troy by (cases "Address troy (answering troy_response)") (simp add: troy_address_def)
  have s: "server (answering troy_response) (geocoding_url troy (answering troy_response))
      = Inr troy_response"
    by (rule server_answering)
  have p: "json troy_response = Inr (center_payload (PList [PFloat ''-74.0'', PFloat ''40.7'']))"
    by (simp add: troy_response_def)
  from serialize_round_trip [OF A s p j, of blank "answering troy_response"]
  obtain lat lon a' where
    r: "map_of troy_address ''coordinates'' = Some (PTuple [lat, lon])"
       "deserialize (serialize troy_address) (blank, answering troy_response)
          = (Inr (), (a', answering troy_response))"
       "map_of a' ''coordinates'' = Some (PList [lat, lon])"
       "\<forall>k. k \<noteq> ''coordinates'' \<longrightarrow> map_of a' k = map_of troy_address k"
    by blast
  have l: "lat = PFloat ''40.7''" "lon = PFloat ''-74.0''"
    using r(1) by (simp_all add: troy_address_def)
  have "map_of a' ''street1'' = Some (PStr ''123 Main St'')"
    using r(4) [rule_format, of "''street1''"] by (simp add: troy_address_def)
  moreover have "map_of a' ''street2'' = Some PNone"
    using r(4) [rule_format, of "''street2''"] by (simp add: troy_address_def)
  moreover have "map_of a' ''city'' = Some (PStr ''Troy'')"
    using r(4) [rule_format, of "''city''"] by (simp add: troy_address_def)
  moreover have "map_of a' ''state'' = Some (PStr ''NY'')"
    using r(4) [rule_format, of "''state''"] by (simp add: troy_address_def)
  moreover have "map_of a' ''zip'' = Some (PInt 12180)"
    using r(4) [rule_format, of "''zip''"] by (simp add: troy_address_def)
  ultimately show ?thesis
    using r(2,3) l by blast
qed

end
